theory Spec2Isabelle
  imports Complex_Main "HOL-Library.AList"
begin

section \<open>Lattice utilities of JDFTx: reduction, symmetries, supercells, cell maps\<close>

text \<open>
  This theory embeds \<^verbatim>\<open>src/jdftx/core/LatticeUtils.cpp\<close>. The C++ type \<^verbatim>\<open>double\<close>
  is modelled by \<^typ>\<open>real\<close> (exact arithmetic, no rounding, no NaN or infinity; only
  \<^verbatim>\<open>reduceLatticeVectors\<close> is embedded a second time, with the rounding of doubles) and
  \<^verbatim>\<open>int\<close> by \<^typ>\<open>int\<close> (no overflow, which is undefined behaviour in C++).
  The global \<^verbatim>\<open>symmThreshold\<close> is passed explicitly as the parameter \<open>thr\<close>.
\<close>

subsection \<open>Three-vectors and 3x3 matrices\<close>

text \<open>
  Modelled from the spec: the geometry primitives (vector and matrix arithmetic,
  determinant, inverse, cross and triple product) are declared in the headers
  \<^verbatim>\<open>core/vector3.h\<close> and \<^verbatim>\<open>core/matrix3.h\<close>, which are not among the sources; they
  are given their standard mathematical meaning. A matrix is stored by rows. The inverse
  divides by the determinant: where a theorem depends on an inverse, the determinant is
  assumed to be nonzero (in C++ the inverse of a singular matrix has infinite or NaN
  entries).
\<close>

datatype 'a vector3 = Vector3 'a 'a 'a

datatype 'a matrix3 = Matrix3 'a 'a 'a  'a 'a 'a  'a 'a 'a

fun vget :: "'a vector3 \<Rightarrow> nat \<Rightarrow> 'a" where
  "vget (Vector3 a b c) i = (if i = 0 then a else if i = 1 then b else c)"

fun vset :: "'a vector3 \<Rightarrow> nat \<Rightarrow> 'a \<Rightarrow> 'a vector3" where
  "vset (Vector3 a b c) i x =
     (if i = 0 then Vector3 x b c else if i = 1 then Vector3 a x c else Vector3 a b x)"

fun row :: "'a matrix3 \<Rightarrow> nat \<Rightarrow> 'a vector3" where
  "row (Matrix3 a b c d e f g h k) i =
     (if i = 0 then Vector3 a b c else if i = 1 then Vector3 d e f else Vector3 g h k)"

fun column :: "'a matrix3 \<Rightarrow> nat \<Rightarrow> 'a vector3" where
  "column (Matrix3 a b c d e f g h k) j =
     (if j = 0 then Vector3 a d g else if j = 1 then Vector3 b e h else Vector3 c f k)"

fun set_col :: "'a matrix3 \<Rightarrow> nat \<Rightarrow> 'a vector3 \<Rightarrow> 'a matrix3" where
  "set_col (Matrix3 a b c d e f g h k) j (Vector3 x y z) =
     (if j = 0 then Matrix3 x b c y e f z h k
      else if j = 1 then Matrix3 a x c d y f g z k
      else Matrix3 a b x d e y g h z)"

definition mget :: "'a matrix3 \<Rightarrow> nat \<Rightarrow> nat \<Rightarrow> 'a" where
  "mget m i j = vget (row m i) j"

definition mset :: "'a matrix3 \<Rightarrow> nat \<Rightarrow> nat \<Rightarrow> 'a \<Rightarrow> 'a matrix3" where
  "mset m i j x = set_col m j (vset (column m j) i x)"

text \<open>\<^verbatim>\<open>matrix3<T> m(d0,d1,d2)\<close> is the diagonal matrix.\<close>

definition diag3 :: "'a::zero \<Rightarrow> 'a \<Rightarrow> 'a \<Rightarrow> 'a matrix3" where
  "diag3 a b c = Matrix3 a 0 0  0 b 0  0 0 c"

fun map_vector3 :: "('a \<Rightarrow> 'b) \<Rightarrow> 'a vector3 \<Rightarrow> 'b vector3" where
  "map_vector3 f (Vector3 a b c) = Vector3 (f a) (f b) (f c)"

fun map_matrix3 :: "('a \<Rightarrow> 'b) \<Rightarrow> 'a matrix3 \<Rightarrow> 'b matrix3" where
  "map_matrix3 f (Matrix3 a b c d e g h i j) =
     Matrix3 (f a) (f b) (f c) (f d) (f e) (f g) (f h) (f i) (f j)"

text \<open>Implicit conversion of an integer matrix or vector to a real one.\<close>

abbreviation mreal :: "int matrix3 \<Rightarrow> real matrix3" where
  "mreal \<equiv> map_matrix3 real_of_int"

abbreviation vreal :: "int vector3 \<Rightarrow> real vector3" where
  "vreal \<equiv> map_vector3 real_of_int"

fun vadd :: "'a::plus vector3 \<Rightarrow> 'a vector3 \<Rightarrow> 'a vector3" where
  "vadd (Vector3 a b c) (Vector3 x y z) = Vector3 (a + x) (b + y) (c + z)"

fun vsub :: "'a::minus vector3 \<Rightarrow> 'a vector3 \<Rightarrow> 'a vector3" where
  "vsub (Vector3 a b c) (Vector3 x y z) = Vector3 (a - x) (b - y) (c - z)"

fun vscale :: "'a::times vector3 \<Rightarrow> 'a \<Rightarrow> 'a vector3" where
  "vscale (Vector3 a b c) s = Vector3 (a * s) (b * s) (c * s)"

fun dot :: "'a::{plus,times} vector3 \<Rightarrow> 'a vector3 \<Rightarrow> 'a" where
  "dot (Vector3 a b c) (Vector3 x y z) = a * x + b * y + c * z"

definition length_squared :: "'a::{plus,times} vector3 \<Rightarrow> 'a" where
  "length_squared v = dot v v"

definition vlength :: "real vector3 \<Rightarrow> real" where
  "vlength v = sqrt (length_squared v)"

fun cross :: "'a::{minus,times} vector3 \<Rightarrow> 'a vector3 \<Rightarrow> 'a vector3" where
  "cross (Vector3 a b c) (Vector3 x y z) =
     Vector3 (b * z - c * y) (c * x - a * z) (a * y - b * x)"

definition box :: "'a::{plus,minus,times} vector3 \<Rightarrow> 'a vector3 \<Rightarrow> 'a vector3 \<Rightarrow> 'a" where
  "box u v w = dot u (cross v w)"

fun mtranspose :: "'a matrix3 \<Rightarrow> 'a matrix3" where
  "mtranspose (Matrix3 a b c d e f g h k) = Matrix3 a d g  b e h  c f k"

definition mvmul :: "'a::{plus,times} matrix3 \<Rightarrow> 'a vector3 \<Rightarrow> 'a vector3" where
  "mvmul m v = Vector3 (dot (row m 0) v) (dot (row m 1) v) (dot (row m 2) v)"

definition mmul :: "'a::{plus,times} matrix3 \<Rightarrow> 'a matrix3 \<Rightarrow> 'a matrix3" where
  "mmul m n =
     Matrix3 (dot (row m 0) (column n 0)) (dot (row m 0) (column n 1)) (dot (row m 0) (column n 2))
             (dot (row m 1) (column n 0)) (dot (row m 1) (column n 1)) (dot (row m 1) (column n 2))
             (dot (row m 2) (column n 0)) (dot (row m 2) (column n 1)) (dot (row m 2) (column n 2))"

fun msub :: "'a::minus matrix3 \<Rightarrow> 'a matrix3 \<Rightarrow> 'a matrix3" where
  "msub (Matrix3 a b c d e f g h k) (Matrix3 a' b' c' d' e' f' g' h' k') =
     Matrix3 (a - a') (b - b') (c - c') (d - d') (e - e') (f - f') (g - g') (h - h') (k - k')"

definition mscale :: "'a::times matrix3 \<Rightarrow> 'a \<Rightarrow> 'a matrix3" where
  "mscale m s = map_matrix3 (\<lambda>x. x * s) m"

fun det :: "'a::{plus,minus,times} matrix3 \<Rightarrow> 'a" where
  "det (Matrix3 a b c d e f g h k) =
     a * (e * k - f * h) - b * (d * k - f * g) + c * (d * h - e * g)"

fun adjugate :: "'a::{minus,times} matrix3 \<Rightarrow> 'a matrix3" where
  "adjugate (Matrix3 a b c d e f g h k) =
     Matrix3 (e * k - f * h) (c * h - b * k) (b * f - c * e)
             (f * g - d * k) (a * k - c * g) (c * d - a * f)
             (d * h - e * g) (b * g - a * h) (a * e - b * d)"

definition minv :: "real matrix3 \<Rightarrow> real matrix3" where
  "minv m = mscale (adjugate m) (1 / det m)"

text \<open>
  The sum of the squares of the entries. \<^verbatim>\<open>nrm2\<close> of a \<^verbatim>\<open>matrix3\<close> is declared in the
  absent header; the functions below take it as the parameter \<open>nrm2\<close>. The spec describes the
  quantity compared during reduction as the squared Frobenius norm (\<open>frob2\<close>); the sibling
  \<^verbatim>\<open>nrm2(const diagMatrix&)\<close> of \<^verbatim>\<open>electronic/matrix.cpp\<close> takes the square root
  (\<open>frob\<close>). Both are covered.
\<close>

fun frob2 :: "real matrix3 \<Rightarrow> real" where
  "frob2 (Matrix3 a b c d e f g h k) =
     a * a + b * b + c * c + d * d + e * e + f * f + g * g + h * h + k * k"

definition frob :: "real matrix3 \<Rightarrow> real" where
  "frob m = sqrt (frob2 m)"

text \<open>What the proofs need of \<open>nrm2\<close>: it is never negative, and zero only at the zero matrix.\<close>

definition norm_like :: "(real matrix3 \<Rightarrow> real) \<Rightarrow> bool" where
  "norm_like nrm2 \<longleftrightarrow> (\<forall>m. 0 \<le> nrm2 m \<and> (nrm2 m = 0 \<longleftrightarrow> m = diag3 0 0 0))"

subsection \<open>reduceLatticeVectors\<close>

text \<open>
  The elementary shear \<open>d\<close> of one \<open>(k1, i, j)\<close>; \<open>dInv\<close> is \<open>shear k1 (- i) (- j)\<close>.
  The fields \<open>transmission\<close> and \<open>invTransmission\<close> are the locals \<^verbatim>\<open>t\<close> and
  \<^verbatim>\<open>tInv\<close>, named after the outputs they are written to.
\<close>

definition shear :: "nat \<Rightarrow> int \<Rightarrow> int \<Rightarrow> int matrix3" where
  "shear k1 i j =
     (let k2 = (k1 + 1) mod 3; k3 = (k1 + 2) mod 3
      in mset (mset (diag3 1 1 1) k2 k1 i) k3 k1 j)"

record reduce_state =
  Rreduced :: "real matrix3"
  transmission :: "int matrix3"
  invTransmission :: "int matrix3"
  changed :: bool

definition propose ::
  "real \<Rightarrow> (real matrix3 \<Rightarrow> real) \<Rightarrow> reduce_state \<Rightarrow> nat \<times> int \<times> int \<Rightarrow> reduce_state" where
  "propose thr nrm2 st c =
     (case c of (k1, i, j) \<Rightarrow>
        let d = shear k1 i j; dInv = shear k1 (- i) (- j);
            Rproposed = mmul (Rreduced st) (mreal d)
        in if nrm2 Rproposed < nrm2 (Rreduced st) - thr
           then \<lparr>Rreduced = Rproposed, transmission = mmul (transmission st) d,
                 invTransmission = mmul dInv (invTransmission st), changed = True\<rparr>
           else st)"

text \<open>The 27 proposals of one sweep, in the order of the three nested loops.\<close>

definition proposals :: "(nat \<times> int \<times> int) list" where
  "proposals = concat (map (\<lambda>k1. concat (map (\<lambda>i. map (\<lambda>j. (k1, i, j)) [-1, 0, 1]) [-1, 0, 1]))
                        [0, 1, 2])"

definition sweep :: "real \<Rightarrow> (real matrix3 \<Rightarrow> real) \<Rightarrow> reduce_state \<Rightarrow> reduce_state" where
  "sweep thr nrm2 st = foldl (propose thr nrm2) (st\<lparr>changed := False\<rparr>) proposals"

text \<open>
  \<^verbatim>\<open>while(true) { ... if(!changed) break; }\<close>: the loop need not end for every
  \<open>thr\<close> and \<open>nrm2\<close>, so not returning is the value \<open>None\<close>.
\<close>

partial_function (option) reduce_loop ::
  "real \<Rightarrow> (real matrix3 \<Rightarrow> real) \<Rightarrow> reduce_state \<Rightarrow> reduce_state option" where
  "reduce_loop thr nrm2 st =
     (let st' = sweep thr nrm2 st
      in if changed st' then reduce_loop thr nrm2 st' else Some st')"

text \<open>The result with both optional outputs: \<open>(Rreduced, transmission, invTransmission)\<close>.\<close>

definition reduceLatticeVectors ::
  "real \<Rightarrow> (real matrix3 \<Rightarrow> real) \<Rightarrow> real matrix3
     \<Rightarrow> (real matrix3 \<times> int matrix3 \<times> int matrix3) option" where
  "reduceLatticeVectors thr nrm2 R =
     map_option (\<lambda>st. (Rreduced st, transmission st, invTransmission st))
       (reduce_loop thr nrm2 \<lparr>Rreduced = R, transmission = diag3 1 1 1,
                               invTransmission = diag3 1 1 1, changed = False\<rparr>)"

subsection \<open>reduceLatticeVectors in double precision\<close>

text \<open>
  The product \<^verbatim>\<open>Rreduced * d\<close> of \<open>propose\<close> is exact. In the code it is a product of
  doubles, and the column that a shear changes is rounded. For the one claim that speaks of
  an exact equality of determinants the loop is therefore embedded a second time, with the
  arithmetic of IEEE 754 binary64: an operation returns the double nearest to the exact
  result, a tie going to the even significand. The significand has 53 bits, and below
  \<open>2 powi (- 1022)\<close> the spacing stays that of the smallest normal numbers (gradual
  underflow). Overflow is not modelled: the exponent is not bounded above.
\<close>

definition round_ties_even :: "real \<Rightarrow> int" where
  "round_ties_even y =
     (let f = \<lfloor>y\<rfloor>; r = y - of_int f
      in if r < 1 / 2 then f else if 1 / 2 < r then f + 1 else if even f then f else f + 1)"

definition exponent :: "real \<Rightarrow> int" where
  "exponent x = max \<lfloor>log 2 \<bar>x\<bar>\<rfloor> (- 1022)"

text \<open>The smallest positive double; every double is a multiple of it.\<close>

definition denorm_min :: real where
  "denorm_min = 2 powi (- 1074)"

definition binary64 :: "real \<Rightarrow> real" where
  "binary64 x =
     (if x = 0 then 0
      else let ulp = 2 powi (exponent x - 52)
           in of_int (round_ties_even (x / ulp)) * ulp)"

text \<open>
  Modelled from the spec: the matrix product of the absent header \<^verbatim>\<open>core/matrix3.h\<close>, every
  entry accumulated from zero over \<open>k = 0, 1, 2\<close>, every product and every sum rounded (the
  conversion of the \<^verbatim>\<open>int\<close> entries of \<open>d\<close> to \<^verbatim>\<open>double\<close> is exact); and the two
  readings of \<^verbatim>\<open>nrm2\<close>, \<open>frob2\<close> and \<open>frob\<close>, with the squares summed by rows and the
  square root correctly rounded.
\<close>

fun dot_double :: "real vector3 \<Rightarrow> real vector3 \<Rightarrow> real" where
  "dot_double (Vector3 a b c) (Vector3 x y z) =
     foldl (\<lambda>s (p, q). binary64 (s + binary64 (p * q))) 0 [(a, x), (b, y), (c, z)]"

definition mmul_double :: "real matrix3 \<Rightarrow> real matrix3 \<Rightarrow> real matrix3" where
  "mmul_double m n =
     Matrix3 (dot_double (row m 0) (column n 0)) (dot_double (row m 0) (column n 1))
             (dot_double (row m 0) (column n 2))
             (dot_double (row m 1) (column n 0)) (dot_double (row m 1) (column n 1))
             (dot_double (row m 1) (column n 2))
             (dot_double (row m 2) (column n 0)) (dot_double (row m 2) (column n 1))
             (dot_double (row m 2) (column n 2))"

fun frob2_double :: "real matrix3 \<Rightarrow> real" where
  "frob2_double (Matrix3 a b c d e f g h k) =
     foldl (\<lambda>s x. binary64 (s + binary64 (x * x))) 0 [a, b, c, d, e, f, g, h, k]"

definition frob_double :: "real matrix3 \<Rightarrow> real" where
  "frob_double m = binary64 (sqrt (frob2_double m))"

text \<open>
  The loop of \<^verbatim>\<open>reduceLatticeVectors\<close> once more. The integer matrices \<^verbatim>\<open>t\<close> and
  \<^verbatim>\<open>tInv\<close> are multiplied exactly, as before; the difference
  \<^verbatim>\<open>nrm2(Rreduced) - symmThreshold\<close> is a difference of doubles.
\<close>

definition propose_double ::
  "real \<Rightarrow> (real matrix3 \<Rightarrow> real) \<Rightarrow> reduce_state \<Rightarrow> nat \<times> int \<times> int \<Rightarrow> reduce_state" where
  "propose_double thr nrm2 st c =
     (case c of (k1, i, j) \<Rightarrow>
        let d = shear k1 i j; dInv = shear k1 (- i) (- j);
            Rproposed = mmul_double (Rreduced st) (mreal d)
        in if nrm2 Rproposed < binary64 (nrm2 (Rreduced st) - thr)
           then \<lparr>Rreduced = Rproposed, transmission = mmul (transmission st) d,
                 invTransmission = mmul dInv (invTransmission st), changed = True\<rparr>
           else st)"

definition sweep_double :: "real \<Rightarrow> (real matrix3 \<Rightarrow> real) \<Rightarrow> reduce_state \<Rightarrow> reduce_state" where
  "sweep_double thr nrm2 st =
     foldl (propose_double thr nrm2) (st\<lparr>changed := False\<rparr>) proposals"

partial_function (option) reduce_loop_double ::
  "real \<Rightarrow> (real matrix3 \<Rightarrow> real) \<Rightarrow> reduce_state \<Rightarrow> reduce_state option" where
  "reduce_loop_double thr nrm2 st =
     (let st' = sweep_double thr nrm2 st
      in if changed st' then reduce_loop_double thr nrm2 st' else Some st')"

definition reduceLatticeVectors_double ::
  "real \<Rightarrow> (real matrix3 \<Rightarrow> real) \<Rightarrow> real matrix3
     \<Rightarrow> (real matrix3 \<times> int matrix3 \<times> int matrix3) option" where
  "reduceLatticeVectors_double thr nrm2 R =
     map_option (\<lambda>st. (Rreduced st, transmission st, invTransmission st))
       (reduce_loop_double thr nrm2 \<lparr>Rreduced = R, transmission = diag3 1 1 1,
                                      invTransmission = diag3 1 1 1, changed = False\<rparr>)"

subsection \<open>getSymmetries\<close>

text \<open>The \<open>3^9\<close> candidate matrices, in the order of the nine nested \<^verbatim>\<open>iLOOP\<close>s.\<close>

definition candidates :: "int matrix3 list" where
  "candidates =
     [Matrix3 a b c d e f g h k.
        a \<leftarrow> [-1, 0, 1], b \<leftarrow> [-1, 0, 1], c \<leftarrow> [-1, 0, 1],
        d \<leftarrow> [-1, 0, 1], e \<leftarrow> [-1, 0, 1], f \<leftarrow> [-1, 0, 1],
        g \<leftarrow> [-1, 0, 1], h \<leftarrow> [-1, 0, 1], k \<leftarrow> [-1, 0, 1]]"

definition leaves_invariant ::
  "real \<Rightarrow> (real matrix3 \<Rightarrow> real) \<Rightarrow> real matrix3 \<Rightarrow> int matrix3 \<Rightarrow> bool" where
  "leaves_invariant thr nrm2 metric m \<longleftrightarrow>
     nrm2 (msub metric (mmul (mmul (mtranspose (mreal m)) metric) (mreal m))) < thr * nrm2 metric"

definition symBroken :: "int matrix3 \<Rightarrow> bool vector3 \<Rightarrow> bool" where
  "symBroken mOrig isTruncated \<longleftrightarrow>
     list_ex (\<lambda>i. list_ex (\<lambda>j. mget mOrig i j \<noteq> 0 \<and> vget isTruncated i \<noteq> vget isTruncated j)
                [0, 1, 2]) [0, 1, 2]"

text \<open>The result with the optional outputs: \<open>(sym, Rreduced, transmission, invTransmission)\<close>.\<close>

definition getSymmetries ::
  "real \<Rightarrow> (real matrix3 \<Rightarrow> real) \<Rightarrow> real matrix3 \<Rightarrow> bool vector3
     \<Rightarrow> (int matrix3 list \<times> real matrix3 \<times> int matrix3 \<times> int matrix3) option" where
  "getSymmetries thr nrm2 R isTruncated =
     (case reduceLatticeVectors thr nrm2 R of
        None \<Rightarrow> None
      | Some (Rred, t, tInv) \<Rightarrow>
          let metric = mmul (mtranspose Rred) Rred;
              syms = concat (map (\<lambda>m.
                      if leaves_invariant thr nrm2 metric m
                      then (let mOrig = mmul (mmul t m) tInv
                            in if symBroken mOrig isTruncated then [] else [mOrig])
                      else []) candidates)
          in Some (syms, Rred, t, tInv))"

subsection \<open>Supercell::Supercell\<close>

record KmeshTransform =
  iReduced :: nat
  iSym :: nat
  invert :: int
  offset :: "int vector3"

text \<open>
  One pass of the innermost loop body up to the lookup: the image of an irreducible k-point
  under \<^verbatim>\<open>(~m) * kOrig * invert\<close>, reduced to the centered zone together with the offset.
\<close>

definition kmesh_image ::
  "real vector3 list \<Rightarrow> int matrix3 list \<Rightarrow> int \<times> nat \<times> nat \<Rightarrow> real vector3 \<times> int vector3" where
  "kmesh_image kmeshReduced syms c =
     (case c of (invt, iRed, iS) \<Rightarrow>
        let kOrig = kmeshReduced ! iRed; m = syms ! iS;
            k = vscale (mvmul (mreal (mtranspose m)) kOrig) (real_of_int invt);
            off = map_vector3 (\<lambda>x. - \<lfloor>1 / 2 + x\<rfloor>) k
        in (vadd k (vreal off), off))"

text \<open>
  \<^verbatim>\<open>PeriodicLookup\<close> is an external collaborator: \<open>plook_find\<close> is a parameter that
  receives the points added so far (all of \<open>kmesh\<close>) and the query, and returns the index found
  or \<open>None\<close> for \<^verbatim>\<open>string::npos\<close>.
\<close>

definition closure_step ::
  "(real vector3 list \<Rightarrow> real vector3 \<Rightarrow> nat option) \<Rightarrow> real vector3 list \<Rightarrow> int matrix3 list
     \<Rightarrow> real vector3 list \<times> KmeshTransform list \<Rightarrow> int \<times> nat \<times> nat
     \<Rightarrow> real vector3 list \<times> KmeshTransform list" where
  "closure_step plook_find kmeshReduced syms st c =
     (case st of (kmesh, kmeshTransform) \<Rightarrow>
      case c of (invt, iRed, iS) \<Rightarrow>
      case kmesh_image kmeshReduced syms c of (k, off) \<Rightarrow>
        if plook_find kmesh k = None
        then (kmesh @ [k],
              kmeshTransform @ [\<lparr>iReduced = iRed, iSym = iS, invert = invt, offset = off\<rparr>])
        else (kmesh, kmeshTransform))"

definition closure_order :: "int list \<Rightarrow> nat \<Rightarrow> nat \<Rightarrow> (int \<times> nat \<times> nat) list" where
  "closure_order invertList nReduced nSym =
     [(invt, iRed, iS). invt \<leftarrow> invertList, iRed \<leftarrow> [0..<nReduced], iS \<leftarrow> [0..<nSym]]"

definition kmesh_closure ::
  "(real vector3 list \<Rightarrow> real vector3 \<Rightarrow> nat option) \<Rightarrow> real vector3 list \<Rightarrow> int matrix3 list
     \<Rightarrow> int list \<Rightarrow> real vector3 list \<times> KmeshTransform list" where
  "kmesh_closure plook_find kmeshReduced syms invertList =
     foldl (closure_step plook_find kmeshReduced syms) ([], [])
       (closure_order invertList (length kmeshReduced) (length syms))"

text \<open>The basis of the k-points: periodic images, then three searches for the shortest \<open>dk\<close>.\<close>

definition iZones :: "int vector3 list" where
  "iZones = [Vector3 a b c. a \<leftarrow> [-1, 0, 1], b \<leftarrow> [-1, 0, 1], c \<leftarrow> [-1, 0, 1],
               length_squared (Vector3 a b c) \<noteq> 0]"

definition kmesh333_of :: "real vector3 list \<Rightarrow> real vector3 list" where
  "kmesh333_of kmesh = kmesh @ concat (map (\<lambda>iZone. map (\<lambda>k. vadd k (vreal iZone)) kmesh) iZones)"

definition DBL_MAX :: real where
  "DBL_MAX = (2 - 1 / 2 ^ 52) * 2 ^ 1023"

definition shortest_dk :: "(real vector3 \<Rightarrow> bool) \<Rightarrow> real vector3 list \<Rightarrow> real vector3" where
  "shortest_dk admissible kmesh333 =
     fst (foldl (\<lambda>(v, minLengthSq) ki.
                   let dk = vsub ki (hd kmesh333)
                   in if admissible dk
                      then (let lengthSq = length_squared dk
                            in if lengthSq < minLengthSq then (dk, lengthSq) else (v, minLengthSq))
                      else (v, minLengthSq))
            (Vector3 0 0 0, DBL_MAX) (tl kmesh333))"

definition kBasis_of :: "real \<Rightarrow> real vector3 list \<Rightarrow> real matrix3" where
  "kBasis_of thr kmesh =
     (let kmesh333 = kmesh333_of kmesh;
          v0 = shortest_dk (\<lambda>dk. True) kmesh333;
          crossThreshold = thr * vlength v0;
          v1 = shortest_dk (\<lambda>dk. vlength (cross v0 dk) > crossThreshold) kmesh333;
          boxThreshold = thr * vlength (cross v0 v1);
          v2 = shortest_dk (\<lambda>dk. \<bar>box v0 v1 dk\<bar> > boxThreshold) kmesh333
      in set_col (set_col (set_col (diag3 0 0 0) 0 v0) 1 v1) 2 v2)"

text \<open>
  \<^verbatim>\<open>die\<close> ends the process; \<^verbatim>\<open>myassert\<close> does so through a stack trace. Both are
  results of the model. \<open>KMeshNotBravais\<close> stands for \<^verbatim>\<open>die(kMeshErrorMsg)\<close> and
  \<open>SuperNotCommensurate\<close> for the message about a non-integer super-cell.
\<close>

datatype fatal = KMeshNotBravais | SuperNotCommensurate | AssertionFailed

text \<open>The C library's \<^verbatim>\<open>round\<close>: to the nearest integer, halfway cases away from zero.\<close>

definition c_round :: "real \<Rightarrow> int" where
  "c_round x = (if 0 \<le> x then \<lfloor>x + 1 / 2\<rfloor> else - \<lfloor>- x + 1 / 2\<rfloor>)"

fun entries :: "'a matrix3 \<Rightarrow> 'a list" where
  "entries (Matrix3 a b c d e f g h k) = [a, b, c, d, e, f, g, h, k]"

text \<open>
  The Bravais-lattice check and the supercell matrix (the part from the comment
  ``Check if kmesh forms a Bravais lattice'' to the end of the rounding loop).
  \<open>round_err v\<close> is the error that \<^verbatim>\<open>round(v, &err)\<close> of the absent header reports.
\<close>

definition supercell_matrix ::
  "real \<Rightarrow> (real matrix3 \<Rightarrow> real) \<Rightarrow> (real vector3 \<Rightarrow> real) \<Rightarrow> real matrix3 \<Rightarrow> real vector3 list
     \<Rightarrow> real matrix3 \<Rightarrow> (fatal + int matrix3) option" where
  "supercell_matrix thr nrm2 round_err R kmesh kBasis0 =
     (case reduceLatticeVectors thr nrm2 kBasis0 of
        None \<Rightarrow> None
      | Some (kBasis, _, _) \<Rightarrow>
          let kBasisInv = minv kBasis
          in if list_ex (\<lambda>kpoint. round_err (mvmul kBasisInv (vsub kpoint (hd kmesh))) > thr) kmesh
             then Some (Inl KMeshNotBravais)
             else if \<bar>\<bar>det kBasisInv\<bar> - real (length kmesh)\<bar> > real (length kmesh) * thr
             then Some (Inl KMeshNotBravais)
             else (case reduceLatticeVectors thr nrm2 (mmul R (mtranspose kBasisInv)) of
                     None \<Rightarrow> None
                   | Some (Rs, _, _) \<Rightarrow>
                       let superTemp = mmul (minv R) Rs;
                           super = map_matrix3 c_round superTemp
                       in if list_ex (\<lambda>(x, n). \<bar>x - real_of_int n\<bar> > thr)
                               (zip (entries superTemp) (entries super))
                          then Some (Inl SuperNotCommensurate)
                          else Some (Inr super)))"

text \<open>Pivot columns to get closest to identity.\<close>

definition permutation :: "nat list list" where
  "permutation = [[0, 1, 2], [1, 2, 0], [2, 0, 1], [2, 1, 0], [1, 0, 2], [0, 2, 1]]"

definition score :: "int matrix3 \<Rightarrow> nat \<Rightarrow> real" where
  "score super p =
     foldl (\<lambda>score k. let col = column super (permutation ! p ! k)
                       in score * (real_of_int (vget col k)) ^ 2 / real_of_int (length_squared col))
       1 [0, 1, 2]"

definition pBest_of :: "int matrix3 \<Rightarrow> nat" where
  "pBest_of super =
     snd (foldl (\<lambda>(maxScore, pBest) p.
                   if score super p > maxScore then (score super p, p) else (maxScore, pBest))
            (0, 0) [0..<6])"

definition permute_columns :: "int matrix3 \<Rightarrow> nat \<Rightarrow> int matrix3" where
  "permute_columns superOrig p =
     foldl (\<lambda>super k. set_col super k (column superOrig (permutation ! p ! k))) superOrig [0, 1, 2]"

definition pivot :: "int matrix3 \<Rightarrow> int matrix3" where
  "pivot super = permute_columns super (pBest_of super)"

definition fix_handedness :: "int matrix3 \<Rightarrow> int matrix3" where
  "fix_handedness super = (if det super < 0 then mscale super (- 1) else super)"

record supercell =
  sc_kmesh :: "real vector3 list"
  sc_kmeshTransform :: "KmeshTransform list"
  sc_super :: "int matrix3"
  sc_Rsuper :: "real matrix3"

text \<open>The constructor: \<open>None\<close> if a reduction does not return, \<open>Inl\<close> if the process dies.\<close>

definition Supercell ::
  "real \<Rightarrow> (real matrix3 \<Rightarrow> real) \<Rightarrow> (real vector3 \<Rightarrow> real)
     \<Rightarrow> (real vector3 list \<Rightarrow> real vector3 \<Rightarrow> nat option)
     \<Rightarrow> real matrix3 \<Rightarrow> real vector3 list \<Rightarrow> int matrix3 list \<Rightarrow> int list
     \<Rightarrow> (fatal + supercell) option" where
  "Supercell thr nrm2 round_err plook_find R kmeshReduced syms invertList =
     (case kmesh_closure plook_find kmeshReduced syms invertList of (km, kmt) \<Rightarrow>
       (case supercell_matrix thr nrm2 round_err R km (kBasis_of thr km) of
          None \<Rightarrow> None
        | Some (Inl e) \<Rightarrow> Some (Inl e)
        | Some (Inr s) \<Rightarrow>
            let s' = fix_handedness (pivot s)
            in Some (Inr \<lparr>sc_kmesh = km, sc_kmeshTransform = kmt, sc_super = s',
                          sc_Rsuper = mmul R (mreal s')\<rparr>)))"

subsection \<open>getCellMap\<close>

text \<open>
  \<^verbatim>\<open>WignerSeitz\<close> is an external collaborator: the class is a record of the three members
  that are called, and its constructor is the parameter \<open>ws_of\<close>. The map
  \<^verbatim>\<open>std::map<vector3<int>, double>\<close> is an association list with unique keys; writing the
  file \<^verbatim>\<open>fname\<close> does not change the result and is left out.
\<close>

record WignerSeitz =
  circumRadius :: real
  onBoundary :: "real vector3 \<Rightarrow> bool"
  boundaryDistance :: "real vector3 \<Rightarrow> real"

type_synonym cellmap = "(int vector3 \<times> real) list"

definition iCells :: "int vector3 \<Rightarrow> int vector3 list" where
  "iCells iCellMax =
     [Vector3 a b c. a \<leftarrow> [- vget iCellMax 0 .. vget iCellMax 0],
                     b \<leftarrow> [- vget iCellMax 1 .. vget iCellMax 1],
                     c \<leftarrow> [- vget iCellMax 2 .. vget iCellMax 2]]"

definition classify ::
  "WignerSeitz \<Rightarrow> real matrix3 \<Rightarrow> cellmap \<times> int vector3 list \<Rightarrow> int vector3
     \<Rightarrow> cellmap \<times> int vector3 list" where
  "classify ws superInv st iCell =
     (case st of (iCellMap, iCellSurface) \<Rightarrow>
        let xCell = mvmul superInv (vreal iCell)
        in if onBoundary ws xCell then (iCellMap, iCellSurface @ [iCell])
           else if boundaryDistance ws xCell > 0 then (AList.update iCell 1 iCellMap, iCellSurface)
           else (iCellMap, iCellSurface))"

text \<open>The test of the inner \<^verbatim>\<open>while\<close>: is \<open>c2 - c\<close> a super-lattice vector within \<open>thr\<close>?\<close>

definition equivalent ::
  "real \<Rightarrow> (real vector3 \<Rightarrow> real) \<Rightarrow> real matrix3 \<Rightarrow> int vector3 \<Rightarrow> int vector3 \<Rightarrow> bool" where
  "equivalent thr round_err superInv c c2 \<longleftrightarrow> round_err (mvmul superInv (vreal (vsub c2 c))) < thr"

text \<open>
  The multiplicity loop: the head of the list is \<^verbatim>\<open>*iter\<close>; the cells equivalent to it are
  erased from the rest of the list, and the loop goes on with what is left.
\<close>

fun surface_weights ::
  "real \<Rightarrow> (real vector3 \<Rightarrow> real) \<Rightarrow> real matrix3 \<Rightarrow> int vector3 list \<Rightarrow> cellmap \<Rightarrow> cellmap" where
  "surface_weights thr round_err superInv [] iCellMap = iCellMap"
| "surface_weights thr round_err superInv (c # rest) iCellMap =
     (let equiv = filter (equivalent thr round_err superInv c) rest;
          weight = 1 / (1 + real (length equiv))
      in surface_weights thr round_err superInv
           (filter (\<lambda>c2. \<not> equivalent thr round_err superInv c c2) rest)
           (foldl (\<lambda>m iCell. AList.update iCell weight m) (AList.update c weight iCellMap) equiv))"

definition weightSum_of :: "cellmap \<Rightarrow> real" where
  "weightSum_of iCellMap = foldl (\<lambda>weightSum entry. weightSum + snd entry) 0 iCellMap"

text \<open>
  \<^verbatim>\<open>weightSum / nCells\<close> is a division of doubles: for \<open>nCells = 0\<close> it is an infinity or
  NaN, and the asserted comparison is false; the model says so explicitly.
\<close>

definition getCellMap ::
  "real \<Rightarrow> (real vector3 \<Rightarrow> real) \<Rightarrow> (real matrix3 \<Rightarrow> WignerSeitz) \<Rightarrow> real matrix3 \<Rightarrow> real matrix3
     \<Rightarrow> fatal + cellmap" where
  "getCellMap thr round_err ws_of R Rsup =
     (let ws = ws_of Rsup;
          Rmax = circumRadius ws;
          invR = minv R;
          iCellMax = Vector3 (1 + \<lceil>Rmax * vlength (row invR 0)\<rceil>)
                             (1 + \<lceil>Rmax * vlength (row invR 1)\<rceil>)
                             (1 + \<lceil>Rmax * vlength (row invR 2)\<rceil>);
          superInv = mmul (minv Rsup) R;
          nCells = c_round \<bar>1 / det superInv\<bar>;
          (iCellMap0, iCellSurface) = foldl (classify ws superInv) ([], []) (iCells iCellMax);
          iCellMap = surface_weights thr round_err superInv iCellSurface iCellMap0;
          weightSum = weightSum_of iCellMap
      in if nCells \<noteq> 0 \<and> \<bar>weightSum / real_of_int nCells - 1\<bar> < thr
         then Inr iCellMap else Inl AssertionFailed)"

subsection \<open>Notions used in the statements and proofs\<close>

text \<open>A proposal is accepted when the proposed lattice is shorter by more than \<open>thr\<close>.\<close>

definition accepts ::
  "real \<Rightarrow> (real matrix3 \<Rightarrow> real) \<Rightarrow> real matrix3 \<Rightarrow> nat \<times> int \<times> int \<Rightarrow> bool" where
  "accepts thr nrm2 R c =
     (case c of (k1, i, j) \<Rightarrow> nrm2 (mmul R (mreal (shear k1 i j))) < nrm2 R - thr)"

definition reduce_inv :: "real matrix3 \<Rightarrow> reduce_state \<Rightarrow> bool" where
  "reduce_inv R st \<longleftrightarrow>
     Rreduced st = mmul R (mreal (transmission st)) \<and>
     mmul (transmission st) (invTransmission st) = diag3 1 1 1 \<and>
     mmul (invTransmission st) (transmission st) = diag3 1 1 1 \<and>
     det (transmission st) = 1"

text \<open>The state in which the loop starts.\<close>

definition reduce_init :: "real matrix3 \<Rightarrow> reduce_state" where
  "reduce_init R =
     \<lparr>Rreduced = R, transmission = diag3 1 1 1, invTransmission = diag3 1 1 1, changed = False\<rparr>"



text \<open>
  The score in the spec's words: the sum over the columns of
  (diagonal entry squared) / (column squared length), in place of the product that the code forms.
\<close>

definition score_spec :: "int matrix3 \<Rightarrow> nat \<Rightarrow> real" where
  "score_spec super p =
     sum_list (map (\<lambda>k. let col = column super (permutation ! p ! k)
                         in (real_of_int (vget col k)) ^ 2 / real_of_int (length_squared col))
                 [0, 1, 2])"

text \<open>The state of the search for the best permutation after the permutations in \<open>S\<close>.\<close>

definition best_so_far :: "(nat \<Rightarrow> real) \<Rightarrow> nat set \<Rightarrow> real \<times> nat \<Rightarrow> bool" where
  "best_so_far f S st \<longleftrightarrow>
     (\<forall>p\<in>S. f p \<le> fst st) \<and> (fst st = f (snd st) \<and> snd st \<in> S \<or> fst st = 0 \<and> snd st = 0)"

text \<open>
  The intermediate values of \<open>getCellMap\<close>: the matrix \<^verbatim>\<open>superInv\<close>, the bounding box
  \<^verbatim>\<open>iCellMax\<close>, and the outcome of the classification loop, that is the map of the interior
  cells and the list \<^verbatim>\<open>iCellSurface\<close> of the cells on the boundary.
\<close>

definition superInv_of :: "real matrix3 \<Rightarrow> real matrix3 \<Rightarrow> real matrix3" where
  "superInv_of R Rsup = mmul (minv Rsup) R"

definition iCellMax_of :: "WignerSeitz \<Rightarrow> real matrix3 \<Rightarrow> int vector3" where
  "iCellMax_of ws R =
     Vector3 (1 + \<lceil>circumRadius ws * vlength (row (minv R) 0)\<rceil>)
             (1 + \<lceil>circumRadius ws * vlength (row (minv R) 1)\<rceil>)
             (1 + \<lceil>circumRadius ws * vlength (row (minv R) 2)\<rceil>)"

definition classified ::
  "(real matrix3 \<Rightarrow> WignerSeitz) \<Rightarrow> real matrix3 \<Rightarrow> real matrix3 \<Rightarrow> cellmap \<times> int vector3 list" where
  "classified ws_of R Rsup =
     foldl (classify (ws_of Rsup) (superInv_of R Rsup)) ([], []) (iCells (iCellMax_of (ws_of Rsup) R))"

definition surface_cells ::
  "(real matrix3 \<Rightarrow> WignerSeitz) \<Rightarrow> real matrix3 \<Rightarrow> real matrix3 \<Rightarrow> int vector3 list" where
  "surface_cells ws_of R Rsup = snd (classified ws_of R Rsup)"

definition interior_cells ::
  "(real matrix3 \<Rightarrow> WignerSeitz) \<Rightarrow> real matrix3 \<Rightarrow> real matrix3 \<Rightarrow> int vector3 list" where
  "interior_cells ws_of R Rsup = map fst (fst (classified ws_of R Rsup))"

text \<open>The vectors with three integer coordinates.\<close>

fun in_Z3 :: "real vector3 \<Rightarrow> bool" where
  "in_Z3 (Vector3 x y z) \<longleftrightarrow> x \<in> \<int> \<and> y \<in> \<int> \<and> z \<in> \<int>"

text \<open>An equivalence relation on a set.\<close>

definition equiv_on :: "'a set \<Rightarrow> ('a \<Rightarrow> 'a \<Rightarrow> bool) \<Rightarrow> bool" where
  "equiv_on S E \<longleftrightarrow>
     (\<forall>x\<in>S. E x x) \<and> (\<forall>x\<in>S. \<forall>y\<in>S. E x y \<longrightarrow> E y x) \<and>
     (\<forall>x\<in>S. \<forall>y\<in>S. \<forall>z\<in>S. E x y \<longrightarrow> E y z \<longrightarrow> E x z)"

text \<open>
  The same notions for the loop in double precision: the test of one proposal, what the loop
  keeps true of the two integer matrices, and what is needed of \<open>nrm2\<close> there, namely that
  it returns a double that is not negative.
\<close>

definition accepts_double ::
  "real \<Rightarrow> (real matrix3 \<Rightarrow> real) \<Rightarrow> real matrix3 \<Rightarrow> nat \<times> int \<times> int \<Rightarrow> bool" where
  "accepts_double thr nrm2 R c =
     (case c of (k1, i, j) \<Rightarrow>
        nrm2 (mmul_double R (mreal (shear k1 i j))) < binary64 (nrm2 R - thr))"

definition unimodular :: "reduce_state \<Rightarrow> bool" where
  "unimodular st \<longleftrightarrow>
     mmul (transmission st) (invTransmission st) = diag3 1 1 1 \<and>
     mmul (invTransmission st) (transmission st) = diag3 1 1 1 \<and>
     det (transmission st) = 1"

definition double_valued :: "(real matrix3 \<Rightarrow> real) \<Rightarrow> bool" where
  "double_valued nrm2 \<longleftrightarrow> (\<forall>m. 0 \<le> nrm2 m \<and> binary64 (nrm2 m) = nrm2 m)"

subsection \<open>Concrete inputs\<close>

text \<open>
  A cell of 10 bohr that is cubic up to a strain of 0.005 percent along the second axis, and
  the exchange of the first two axes.
\<close>

definition R_strained :: "real matrix3" where
  "R_strained = diag3 10 (20001 / 2000) 10"

definition swap_xy :: "int matrix3" where
  "swap_xy = Matrix3 0 1 0  1 0 0  0 0 1"

text \<open>
  Modelled from the spec: a point lookup \<open>find(point)\<close> that returns the index of a stored
  point or nothing; here of tolerance zero (the points it compares are already reduced to
  the centered zone). Then the point group of a fourfold axis and a unimodular supercell
  matrix.
\<close>

definition plook_exact :: "real vector3 list \<Rightarrow> real vector3 \<Rightarrow> nat option" where
  "plook_exact kmesh k =
     (case filter (\<lambda>i. kmesh ! i = k) [0..<length kmesh] of [] \<Rightarrow> None | i # _ \<Rightarrow> Some i)"


definition super_skew :: "int matrix3" where
  "super_skew = Matrix3 (- 2) (- 1) 0  (- 1) 0 0  0 (- 1) (- 1)"

text \<open>
  Modelled from the spec: \<^verbatim>\<open>round(v, &err)\<close> of the absent header reports a residual with the
  nearest integer vector; here it is the Euclidean distance to that vector.
\<close>

definition round_err_euclid :: "real vector3 \<Rightarrow> real" where
  "round_err_euclid v = vlength (vsub v (vreal (map_vector3 c_round v)))"

text \<open>
  Modelled from the spec: the Wigner-Seitz cell is the set of points closer to the origin
  than to any other lattice point. For an orthorhombic lattice (a diagonal matrix of lattice
  vectors) it is the box of the points with every fractional coordinate in \<open>[-1/2, 1/2]\<close>;
  the distance to its boundary is positive inside, and its circumradius is half the diagonal.
\<close>

fun box_distance :: "real \<Rightarrow> real \<Rightarrow> real \<Rightarrow> real vector3 \<Rightarrow> real" where
  "box_distance a b c (Vector3 x y z) =
     min (\<bar>a\<bar> * (1 / 2 - \<bar>x\<bar>)) (min (\<bar>b\<bar> * (1 / 2 - \<bar>y\<bar>)) (\<bar>c\<bar> * (1 / 2 - \<bar>z\<bar>)))"

definition WignerSeitz_orthorhombic :: "real matrix3 \<Rightarrow> WignerSeitz" where
  "WignerSeitz_orthorhombic Rsup =
     \<lparr>circumRadius = sqrt ((mget Rsup 0 0)\<^sup>2 + (mget Rsup 1 1)\<^sup>2 + (mget Rsup 2 2)\<^sup>2) / 2,
      onBoundary = (\<lambda>x. box_distance (mget Rsup 0 0) (mget Rsup 1 1) (mget Rsup 2 2) x = 0),
      boundaryDistance = box_distance (mget Rsup 0 0) (mget Rsup 1 1) (mget Rsup 2 2)\<rparr>"

text \<open>
  A lattice whose first vector has a component at the level of rounding noise, as a
  rotation computed in doubles leaves it (the columns are the lattice vectors), and the
  lattice that the reduction in double precision returns for it.
\<close>

definition R_noise :: "real matrix3" where
  "R_noise = Matrix3 1 1 0  (1 / 2 ^ 54) 1 0  0 0 1"

definition R_noise_reduced :: "real matrix3" where
  "R_noise_reduced = Matrix3 1 0 0  (1 / 2 ^ 54) 1 0  0 0 1"

section \<open>Properties\<close>

subsection \<open>Matrix algebra\<close>

lemma mmul_assoc: "mmul (mmul a b) c = mmul a (mmul b (c::'a::comm_ring_1 matrix3))"
  by (cases a; cases b; cases c) (simp add: mmul_def algebra_simps)

lemma det_mmul: "det (mmul a b) = det a * det (b::'a::comm_ring_1 matrix3)"
  by (cases a; cases b) (simp add: mmul_def algebra_simps)

lemma mmul_eye_right: "mmul a (diag3 1 1 1) = (a::'a::comm_ring_1 matrix3)"
  by (cases a) (simp add: mmul_def diag3_def)

lemma mmul_eye_left: "mmul (diag3 1 1 1) a = (a::'a::comm_ring_1 matrix3)"
  by (cases a) (simp add: mmul_def diag3_def)

lemma mreal_mmul: "mreal (mmul a b) = mmul (mreal a) (mreal b)"
  by (cases a; cases b) (simp add: mmul_def)

lemma det_mreal: "det (mreal a) = real_of_int (det a)"
  by (cases a) simp

lemma mreal_eye: "mreal (diag3 1 1 1) = diag3 1 1 1"
  by (simp add: diag3_def)

lemma frob2_nonneg: "0 \<le> frob2 m"
  by (cases m) simp

lemma frob2_zero_iff: "frob2 m = 0 \<longleftrightarrow> m = diag3 0 0 0"
  by (cases m) (auto simp: diag3_def add_nonneg_eq_0_iff)

lemma frob2_norm_like: "norm_like frob2"
  by (simp add: norm_like_def frob2_nonneg frob2_zero_iff)

lemma frob_norm_like: "norm_like frob"
  by (simp add: norm_like_def frob_def frob2_nonneg frob2_zero_iff)

subsection \<open>The shears and the invariant of the reduction loop\<close>

lemma k1_cases: "k1 < 3 \<Longrightarrow> k1 = 0 \<or> k1 = 1 \<or> k1 = (2::nat)"
  by arith

lemma det_shear: "k1 < 3 \<Longrightarrow> det (shear k1 i j) = 1"
  by (auto dest!: k1_cases simp: shear_def mset_def diag3_def)

lemma shear_inverse: "k1 < 3 \<Longrightarrow> mmul (shear k1 i j) (shear k1 (- i) (- j)) = diag3 1 1 1"
  by (auto dest!: k1_cases simp: shear_def mset_def diag3_def mmul_def)

lemma shear_inverse': "k1 < 3 \<Longrightarrow> mmul (shear k1 (- i) (- j)) (shear k1 i j) = diag3 1 1 1"
  using shear_inverse[of k1 "- i" "- j"] by simp

lemma proposals_k1: "(k1, i, j) \<in> set proposals \<Longrightarrow> k1 < 3"
  by (auto simp: proposals_def)

lemma propose_inv:
  assumes "reduce_inv R st" and "fst c < 3"
  shows "reduce_inv R (propose thr nrm2 st c)"
proof -
  obtain k1 i j where c: "c = (k1, i, j)" by (cases c)
  have k: "k1 < 3" using assms c by simp
  let ?t = "transmission st" and ?u = "invTransmission st"
  have "mmul (mmul ?t (shear k1 i j)) (mmul (shear k1 (- i) (- j)) ?u)
        = mmul ?t (mmul (mmul (shear k1 i j) (shear k1 (- i) (- j))) ?u)"
    by (simp only: mmul_assoc)
  also have "\<dots> = diag3 1 1 1"
    using assms k by (simp add: shear_inverse mmul_eye_left reduce_inv_def)
  finally have 1: "mmul (mmul ?t (shear k1 i j)) (mmul (shear k1 (- i) (- j)) ?u) = diag3 1 1 1" .
  have "mmul (mmul (shear k1 (- i) (- j)) ?u) (mmul ?t (shear k1 i j))
        = mmul (shear k1 (- i) (- j)) (mmul (mmul ?u ?t) (shear k1 i j))"
    by (simp only: mmul_assoc)
  also have "\<dots> = diag3 1 1 1"
    using assms k by (simp add: shear_inverse' mmul_eye_left reduce_inv_def)
  finally show ?thesis
    using assms k 1
    by (simp add: propose_def c Let_def reduce_inv_def mreal_mmul mmul_assoc det_mmul det_shear)
qed

lemma foldl_propose_inv:
  "reduce_inv R st \<Longrightarrow> \<forall>c\<in>set cs. fst c < 3 \<Longrightarrow> reduce_inv R (foldl (propose thr nrm2) st cs)"
  by (induction cs arbitrary: st) (simp_all add: propose_inv)

lemma sweep_inv: "reduce_inv R st \<Longrightarrow> reduce_inv R (sweep thr nrm2 st)"
  unfolding sweep_def
  by (rule foldl_propose_inv) (auto simp: reduce_inv_def dest: proposals_k1)

text \<open>
  The rule of the loop: what a sweep preserves holds of the result, and the result is the
  outcome of a sweep that changed nothing.
\<close>

lemma reduce_loop_rule:
  assumes "reduce_loop thr nrm2 st = Some st'" and "I st" and "\<And>s. I s \<Longrightarrow> I (sweep thr nrm2 s)"
  shows "\<exists>s. I s \<and> st' = sweep thr nrm2 s \<and> \<not> changed st'"
proof -
  have "I st \<longrightarrow> (\<forall>s. I s \<longrightarrow> I (sweep thr nrm2 s))
          \<longrightarrow> (\<exists>s. I s \<and> st' = sweep thr nrm2 s \<and> \<not> changed st')"
    by (rule reduce_loop.raw_induct[OF _ assms(1),
          where P = "\<lambda>thr nrm2 st st'. I st \<longrightarrow> (\<forall>s. I s \<longrightarrow> I (sweep thr nrm2 s))
                       \<longrightarrow> (\<exists>s. I s \<and> st' = sweep thr nrm2 s \<and> \<not> changed st')"])
       (auto simp: Let_def split: if_splits)
  with assms(2,3) show ?thesis by blast
qed

lemma propose_accept:
  "accepts thr nrm2 (Rreduced st) c \<Longrightarrow>
     changed (propose thr nrm2 st c) \<and>
     nrm2 (Rreduced (propose thr nrm2 st c)) < nrm2 (Rreduced st) - thr"
  by (cases c) (simp add: propose_def accepts_def Let_def)

lemma propose_reject: "\<not> accepts thr nrm2 (Rreduced st) c \<Longrightarrow> propose thr nrm2 st c = st"
  by (cases c) (simp add: propose_def accepts_def Let_def)

lemma foldl_propose_none:
  "\<forall>c\<in>set cs. \<not> accepts thr nrm2 (Rreduced st) c \<Longrightarrow> foldl (propose thr nrm2) st cs = st"
  by (induction cs) (simp_all add: propose_reject)

lemma foldl_propose_changed: "changed st \<Longrightarrow> changed (foldl (propose thr nrm2) st cs)"
proof (induction cs arbitrary: st)
  case (Cons c cs)
  have "changed (propose thr nrm2 st c)"
    using Cons.prems propose_accept[of thr nrm2 st c] propose_reject[of thr nrm2 st c] by metis
  then show ?case using Cons.IH by simp
qed simp

lemma foldl_propose_unchanged:
  "\<not> changed (foldl (propose thr nrm2) st cs) \<Longrightarrow> \<forall>c\<in>set cs. \<not> accepts thr nrm2 (Rreduced st) c"
proof (induction cs arbitrary: st)
  case (Cons c cs)
  show ?case
  proof (cases "accepts thr nrm2 (Rreduced st) c")
    case True
    then have "changed (foldl (propose thr nrm2) (propose thr nrm2 st c) cs)"
      by (intro foldl_propose_changed) (simp add: propose_accept)
    with Cons.prems show ?thesis by simp
  next
    case False
    then show ?thesis using Cons by (simp add: propose_reject)
  qed
qed simp

lemma foldl_propose_decr:
  "0 \<le> thr \<Longrightarrow>
     nrm2 (Rreduced (foldl (propose thr nrm2) st cs)) \<le> nrm2 (Rreduced st) \<and>
     (changed (foldl (propose thr nrm2) st cs) \<and> \<not> changed st \<longrightarrow>
        nrm2 (Rreduced (foldl (propose thr nrm2) st cs)) < nrm2 (Rreduced st) - thr)"
proof (induction cs arbitrary: st)
  case (Cons c cs)
  show ?case
  proof (cases "accepts thr nrm2 (Rreduced st) c")
    case True
    from propose_accept[OF True] Cons.IH[OF Cons.prems, of "propose thr nrm2 st c"] Cons.prems
    show ?thesis by auto
  next
    case False
    then show ?thesis using Cons by (simp add: propose_reject)
  qed
qed simp

lemma sweep_decr:
  assumes "0 \<le> thr" and "changed (sweep thr nrm2 st)"
  shows "nrm2 (Rreduced (sweep thr nrm2 st)) < nrm2 (Rreduced st) - thr"
  using foldl_propose_decr[OF assms(1), of nrm2 "st\<lparr>changed := False\<rparr>" proposals] assms(2)
  by (simp add: sweep_def)

lemma sweep_fix_iff:
  "\<not> changed (sweep thr nrm2 st) \<longleftrightarrow> (\<forall>c\<in>set proposals. \<not> accepts thr nrm2 (Rreduced st) c)"
  using foldl_propose_unchanged[of thr nrm2 "st\<lparr>changed := False\<rparr>" proposals]
        foldl_propose_none[of proposals thr nrm2 "st\<lparr>changed := False\<rparr>"]
  by (auto simp: sweep_def)

lemma sweep_fix:
  "\<forall>c\<in>set proposals. \<not> accepts thr nrm2 (Rreduced st) c \<Longrightarrow>
     sweep thr nrm2 st = st\<lparr>changed := False\<rparr>"
  using foldl_propose_none[of proposals thr nrm2 "st\<lparr>changed := False\<rparr>"]
  by (simp add: sweep_def)

text \<open>
  The loop returns: every sweep that changes the lattice lowers \<open>nrm2\<close> by more than \<open>thr\<close>,
  and \<open>nrm2\<close> is never negative.
\<close>

lemma reduce_loop_returns:
  assumes "0 < thr" and "\<forall>m. 0 \<le> nrm2 m"
  shows "\<exists>st'. reduce_loop thr nrm2 st = Some st'"
proof (induction "nat \<lfloor>nrm2 (Rreduced st) / thr\<rfloor>" arbitrary: st rule: less_induct)
  case less
  show ?case
  proof (cases "changed (sweep thr nrm2 st)")
    case False
    then show ?thesis by (subst reduce_loop.simps) (simp add: Let_def)
  next
    case True
    let ?s = "sweep thr nrm2 st"
    have d: "nrm2 (Rreduced ?s) < nrm2 (Rreduced st) - thr"
      using sweep_decr[of thr nrm2 st] True assms(1) by simp
    have "nrm2 (Rreduced ?s) / thr < nrm2 (Rreduced st) / thr - 1"
      using d assms(1) by (simp add: field_simps)
    then have "\<lfloor>nrm2 (Rreduced ?s) / thr\<rfloor> < \<lfloor>nrm2 (Rreduced st) / thr\<rfloor>"
      by linarith
    moreover have "0 \<le> nrm2 (Rreduced ?s) / thr" using assms by simp
    ultimately have "nat \<lfloor>nrm2 (Rreduced ?s) / thr\<rfloor> < nat \<lfloor>nrm2 (Rreduced st) / thr\<rfloor>"
      by linarith
    from less[OF this] True show ?thesis
      by (subst reduce_loop.simps) (simp add: Let_def)
  qed
qed

lemma reduce_init_inv: "reduce_inv R (reduce_init R)"
  by (simp add: reduce_inv_def reduce_init_def mreal_eye mmul_eye_right) (simp add: diag3_def)

lemma reduceLatticeVectors_alt:
  "reduceLatticeVectors thr nrm2 R =
     map_option (\<lambda>st. (Rreduced st, transmission st, invTransmission st))
       (reduce_loop thr nrm2 (reduce_init R))"
  by (simp add: reduceLatticeVectors_def reduce_init_def)

lemma reduce_returns:
  assumes "0 < thr" and "norm_like nrm2"
  shows "\<exists>Rr T Ti. reduceLatticeVectors thr nrm2 R = Some (Rr, T, Ti)"
proof -
  from assms(2) have "\<forall>m. 0 \<le> nrm2 m" by (simp add: norm_like_def)
  from reduce_loop_returns[OF assms(1) this, of "reduce_init R"]
  show ?thesis by (auto simp: reduceLatticeVectors_alt)
qed

lemma reduce_result_inv:
  assumes "reduceLatticeVectors thr nrm2 R = Some (Rr, T, Ti)"
  shows "Rr = mmul R (mreal T) \<and> mmul T Ti = diag3 1 1 1 \<and> mmul Ti T = diag3 1 1 1 \<and> det T = 1"
proof -
  from assms obtain st' where st': "reduce_loop thr nrm2 (reduce_init R) = Some st'"
    and r: "Rr = Rreduced st'" "T = transmission st'" "Ti = invTransmission st'"
    by (auto simp: reduceLatticeVectors_alt)
  from reduce_loop_rule[OF st', of "reduce_inv R"] reduce_init_inv sweep_inv
  have "reduce_inv R st'" by blast
  then show ?thesis by (simp add: reduce_inv_def r)
qed

lemma reduce_result_fix:
  assumes "reduceLatticeVectors thr nrm2 R = Some (Rr, T, Ti)"
  shows "\<forall>c\<in>set proposals. \<not> accepts thr nrm2 Rr c"
proof -
  from assms obtain st' where st': "reduce_loop thr nrm2 (reduce_init R) = Some st'"
    and r: "Rr = Rreduced st'"
    by (auto simp: reduceLatticeVectors_alt)
  from reduce_loop_rule[OF st', of "\<lambda>s. True"]
  obtain s where s: "st' = sweep thr nrm2 s" "\<not> changed st'" by blast
  then have n: "\<forall>c\<in>set proposals. \<not> accepts thr nrm2 (Rreduced s) c"
    by (simp add: sweep_fix_iff)
  then have "Rreduced st' = Rreduced s" using s(1) by (simp add: sweep_fix)
  with n r show ?thesis by simp
qed

lemma reduce_of_fix:
  assumes "\<forall>c\<in>set proposals. \<not> accepts thr nrm2 R c"
  shows "reduceLatticeVectors thr nrm2 R = Some (R, diag3 1 1 1, diag3 1 1 1)"
proof -
  have "sweep thr nrm2 (reduce_init R) = reduce_init R"
    using sweep_fix[of thr nrm2 "reduce_init R"] assms by (simp add: reduce_init_def)
  then have "reduce_loop thr nrm2 (reduce_init R) = Some (reduce_init R)"
    by (subst reduce_loop.simps) (simp add: Let_def reduce_init_def)
  then show ?thesis by (simp add: reduceLatticeVectors_alt reduce_init_def)
qed

subsection \<open>Rounding to double precision\<close>

text \<open>Rounding to the nearest integer stays next to the floor, fixes the integers and is monotone.\<close>

lemma rte_bounds: "\<lfloor>y\<rfloor> \<le> round_ties_even y \<and> round_ties_even y \<le> \<lfloor>y\<rfloor> + 1"
  by (simp add: round_ties_even_def Let_def)

lemma rte_of_int: "round_ties_even (of_int n) = n"
  by (simp add: round_ties_even_def)

lemma rte_mono: assumes "a \<le> b" shows "round_ties_even a \<le> round_ties_even b"
proof (cases "\<lfloor>a\<rfloor> = \<lfloor>b\<rfloor>")
  case True
  then show ?thesis using assms by (auto simp: round_ties_even_def Let_def)
next
  case False
  with assms have "\<lfloor>a\<rfloor> < \<lfloor>b\<rfloor>" using floor_mono[OF assms] by simp
  then show ?thesis using rte_bounds[of a] rte_bounds[of b] by linarith
qed

lemma rte_le: "y \<le> of_int n \<Longrightarrow> round_ties_even y \<le> n"
  using rte_mono[of y "of_int n"] by (simp add: rte_of_int)

lemma rte_ge: "of_int n \<le> y \<Longrightarrow> n \<le> round_ties_even y"
  using rte_mono[of "of_int n" y] by (simp add: rte_of_int)

text \<open>The exponent of a positive number is that of the binade \<open>[2 powi k, 2 powi (k + 1))\<close> it lies in.\<close>

lemma floor_log2_iff:
  assumes "0 < x"
  shows "\<lfloor>log 2 x\<rfloor> = k \<longleftrightarrow> 2 powi k \<le> x \<and> x < 2 powi (k + 1)"
proof -
  have a: "2 powr real_of_int k = 2 powi k" by (rule powr_real_of_int') simp_all
  have b: "2 powr real_of_int (k + 1) = 2 powi (k + 1)" by (rule powr_real_of_int') simp_all
  have "1 < (2::real)" by simp
  from floor_log_eq_powr_iff[OF assms this, of k] show ?thesis unfolding a b .
qed

lemma floor_log2_bounds:
  assumes "0 < x"
  shows "2 powi \<lfloor>log 2 x\<rfloor> \<le> x \<and> x < 2 powi (\<lfloor>log 2 x\<rfloor> + 1)"
  using floor_log2_iff[OF assms, of "\<lfloor>log 2 x\<rfloor>"] by simp

lemma floor_log2_eq:
  assumes "2 powi k \<le> x" and "x < 2 powi (k + 1)"
  shows "\<lfloor>log 2 x\<rfloor> = k"
proof -
  have "0 < (2::real) powi k" by simp
  with assms(1) have x: "0 < x" by linarith
  show ?thesis using floor_log2_iff[OF x, of k] assms by simp
qed

lemma exponent_ge: "- 1022 \<le> exponent x"
  by (simp add: exponent_def)

lemma exponent_upper: assumes "0 < x" shows "x < 2 powi (exponent x + 1)"
proof -
  have "x < 2 powi (\<lfloor>log 2 x\<rfloor> + 1)" using floor_log2_bounds[OF assms] by simp
  also have "\<dots> \<le> 2 powi (exponent x + 1)"
    using assms by (intro power_int_increasing) (simp_all add: exponent_def)
  finally show ?thesis .
qed

lemma exponent_lower: assumes "0 < x" and "- 1022 < exponent x" shows "2 powi exponent x \<le> x"
proof -
  from assms have "exponent x = \<lfloor>log 2 x\<rfloor>" by (simp add: exponent_def max_def split: if_splits)
  then show ?thesis using floor_log2_bounds[OF assms(1)] by simp
qed

lemma exponent_mono: assumes "0 < y" and "y \<le> x" shows "exponent y \<le> exponent x"
proof -
  have "log 2 y \<le> log 2 x" using assms by simp
  then have "\<lfloor>log 2 y\<rfloor> \<le> \<lfloor>log 2 x\<rfloor>" by (rule floor_mono)
  then show ?thesis using assms by (simp add: exponent_def)
qed

lemma exponent_eq:
  assumes "0 < x" and "x < 2 powi (k + 1)" and "- 1022 \<le> k" and "k = - 1022 \<or> 2 powi k \<le> x"
  shows "exponent x = k"
proof (cases "2 powi k \<le> x")
  case True
  from floor_log2_eq[OF True assms(2)] assms(1,3) show ?thesis by (simp add: exponent_def)
next
  case False
  with assms(4) have k: "k = - 1022" by simp
  have "\<lfloor>log 2 x\<rfloor> < k + 1"
  proof (rule ccontr)
    assume "\<not> \<lfloor>log 2 x\<rfloor> < k + 1"
    then have "k + 1 \<le> \<lfloor>log 2 x\<rfloor>" by simp
    then have "(2::real) powi (k + 1) \<le> 2 powi \<lfloor>log 2 x\<rfloor>" by (intro power_int_increasing) simp_all
    with floor_log2_bounds[OF assms(1)] assms(2) show False by linarith
  qed
  then show ?thesis using assms(1) k by (simp add: exponent_def)
qed

lemma powi_52: "(2::real) powi k = 2 ^ 52 * 2 powi (k - 52)"
  using power_int_add[of "2::real" 52 "k - 52"] by simp

lemma powi_53: "(2::real) powi (k + 1) = 2 ^ 53 * 2 powi (k - 52)"
proof -
  have e: "k + 1 = 53 + (k - 52)" by simp
  show ?thesis unfolding e by (subst power_int_add) simp_all
qed

text \<open>The significand and its bounds.\<close>

lemma significand_le:
  assumes "0 < x" shows "round_ties_even (x / 2 powi (exponent x - 52)) \<le> 2 ^ 53"
proof -
  let ?u = "(2::real) powi (exponent x - 52)"
  have "x < 2 ^ 53 * ?u" using exponent_upper[OF assms] by (simp add: powi_53)
  then have "x / ?u \<le> of_int (2 ^ 53)" by (simp add: pos_divide_le_eq)
  then show ?thesis by (rule rte_le)
qed

lemma significand_ge:
  assumes "0 < x" and "- 1022 < exponent x"
  shows "2 ^ 52 \<le> round_ties_even (x / 2 powi (exponent x - 52))"
proof -
  let ?u = "(2::real) powi (exponent x - 52)"
  have "2 ^ 52 * ?u \<le> x" using exponent_lower[OF assms] powi_52[of "exponent x"] by simp
  then have "of_int (2 ^ 52) \<le> x / ?u" by (simp add: pos_le_divide_eq)
  then show ?thesis by (rule rte_ge)
qed

lemma significand_nonneg:
  assumes "0 \<le> x" shows "0 \<le> round_ties_even (x / 2 powi k)"
proof -
  have "of_int 0 \<le> x / 2 powi k" using assms by simp
  then show ?thesis by (rule rte_ge)
qed

text \<open>Rounding keeps the sign and the binade (up to its upper end), hence the order.\<close>

lemma binary64_pos:
  "0 < x \<Longrightarrow> binary64 x = of_int (round_ties_even (x / 2 powi (exponent x - 52))) * 2 powi (exponent x - 52)"
  by (simp add: binary64_def Let_def)

lemma binary64_nonneg: "0 \<le> x \<Longrightarrow> 0 \<le> binary64 x"
  by (simp add: binary64_def Let_def significand_nonneg)

lemma binary64_nonpos: assumes "x \<le> 0" shows "binary64 x \<le> 0"
proof -
  have "x / 2 powi k \<le> of_int 0" for k using assms by (simp add: divide_le_0_iff)
  then have "round_ties_even (x / 2 powi k) \<le> 0" for k by (rule rte_le)
  then show ?thesis by (simp add: binary64_def Let_def mult_le_0_iff)
qed

lemma binary64_upper: assumes "0 < x" shows "binary64 x \<le> 2 powi (exponent x + 1)"
proof -
  have "of_int (round_ties_even (x / 2 powi (exponent x - 52))) \<le> (2::real) ^ 53"
    using significand_le[OF assms] by (metis of_int_le_iff of_int_numeral of_int_power)
  then show ?thesis by (simp add: binary64_pos[OF assms] powi_53)
qed

lemma binary64_lower: assumes "0 < x" and "- 1022 < exponent x" shows "2 powi exponent x \<le> binary64 x"
proof -
  have "(2::real) ^ 52 \<le> of_int (round_ties_even (x / 2 powi (exponent x - 52)))"
    using significand_ge[OF assms] by (metis of_int_le_iff of_int_numeral of_int_power)
  then show ?thesis using powi_52[of "exponent x"] by (simp add: binary64_pos[OF assms(1)])
qed

lemma binary64_mono_pos:
  assumes "0 < y" and "y \<le> x" shows "binary64 y \<le> binary64 x"
proof -
  have x: "0 < x" using assms by simp
  show ?thesis
  proof (cases "exponent y = exponent x")
    case True
    have "y / 2 powi (exponent x - 52) \<le> x / 2 powi (exponent x - 52)"
      using assms(2) by (simp add: divide_right_mono)
    from rte_mono[OF this] show ?thesis
      by (simp add: binary64_pos[OF assms(1)] binary64_pos[OF x] True)
  next
    case False
    with exponent_mono[OF assms] have l: "exponent y + 1 \<le> exponent x" by simp
    with exponent_ge[of y] have "- 1022 < exponent x" by simp
    from binary64_lower[OF x this] have "2 powi exponent x \<le> binary64 x" .
    moreover have "(2::real) powi (exponent y + 1) \<le> 2 powi exponent x"
      using l by (intro power_int_increasing) simp_all
    ultimately show ?thesis using binary64_upper[OF assms(1)] by linarith
  qed
qed

lemma binary64_mono: assumes "0 \<le> y" and "y \<le> x" shows "binary64 y \<le> binary64 x"
proof (cases "y = 0")
  case True
  then show ?thesis using binary64_nonneg[of x] assms by (simp add: binary64_def)
next
  case False
  with assms show ?thesis by (intro binary64_mono_pos) simp_all
qed


text \<open>A value with a significand of at most 53 bits is not changed.\<close>

lemma binary64_exact:
  assumes "- 1022 \<le> k" and "0 < n" and "n < 2 ^ 53" and "k = - 1022 \<or> 2 ^ 52 \<le> n"
  shows "binary64 (of_int n * 2 powi (k - 52)) = of_int n * 2 powi (k - 52)"
proof -
  let ?u = "(2::real) powi (k - 52)"
  let ?d = "of_int n * ?u"
  have d: "0 < ?d" using assms(2) by simp
  have "real_of_int n < 2 ^ 53" using assms(3) by (metis of_int_less_iff of_int_numeral of_int_power)
  then have up: "?d < 2 powi (k + 1)" by (simp add: powi_53)
  have lo: "k = - 1022 \<or> 2 powi k \<le> ?d"
  proof (cases "k = - 1022")
    case False
    with assms(4) have "(2::real) ^ 52 \<le> of_int n" by (metis of_int_le_iff of_int_numeral of_int_power)
    then have "2 ^ 52 * ?u \<le> ?d" by simp
    then show ?thesis using powi_52[of k] by simp
  qed simp
  have e: "exponent ?d = k" by (rule exponent_eq[OF d up assms(1) lo])
  show ?thesis by (simp add: binary64_pos[OF d] e rte_of_int)
qed

lemma binary64_idem: assumes "0 \<le> x" shows "binary64 (binary64 x) = binary64 x"
proof (cases "x = 0")
  case True
  then show ?thesis by (simp add: binary64_def)
next
  case False
  with assms have x: "0 < x" by simp
  let ?k = "exponent x"
  let ?n = "round_ties_even (x / 2 powi (?k - 52))"
  have b: "binary64 x = of_int ?n * 2 powi (?k - 52)" by (rule binary64_pos[OF x])
  have n0: "0 \<le> ?n" using x by (intro significand_nonneg) simp
  have n53: "?n \<le> 2 ^ 53" by (rule significand_le[OF x])
  consider "?n = 0" | "0 < ?n" "?n < 2 ^ 53" | "?n = 2 ^ 53" using n0 n53 by linarith
  then show ?thesis
  proof cases
    case 1
    then show ?thesis by (simp add: b binary64_def)
  next
    case 2
    have "?k = - 1022 \<or> 2 ^ 52 \<le> ?n"
      using significand_ge[OF x] exponent_ge[of x] by (cases "?k = - 1022") simp_all
    from binary64_exact[OF exponent_ge 2 this] show ?thesis by (simp add: b)
  next
    case 3
    have e: "of_int ?n * 2 powi (?k - 52) = of_int (2 ^ 52) * (2::real) powi ((?k + 1) - 52)"
      using powi_53[of ?k] powi_52[of "?k + 1"] by (simp add: 3)
    have "binary64 (of_int (2 ^ 52) * 2 powi ((?k + 1) - 52)) = of_int (2 ^ 52) * 2 powi ((?k + 1) - 52)"
      using exponent_ge[of x] by (intro binary64_exact) simp_all
    then show ?thesis by (simp only: b e)
  qed
qed

text \<open>Every value is a multiple of the smallest positive one.\<close>

lemma binary64_grid: "\<exists>z. binary64 x = of_int z * denorm_min"
proof (cases "x = 0")
  case True
  then have "binary64 x = of_int 0 * denorm_min" by (simp add: binary64_def)
  then show ?thesis by blast
next
  case False
  let ?k = "exponent x"
  let ?n = "round_ties_even (x / 2 powi (?k - 52))"
  have "0 \<le> ?k + 1022" using exponent_ge[of x] by simp
  then obtain m where m: "?k + 1022 = int m" using nonneg_int_cases by blast
  then have "?k - 52 = int m + (- 1074)" by linarith
  then have "(2::real) powi (?k - 52) = 2 powi (int m + (- 1074))" by (simp only:)
  also have "\<dots> = 2 powi int m * 2 powi (- 1074)" by (rule power_int_add) simp
  finally have "(2::real) powi (?k - 52) = 2 ^ m * denorm_min"
    by (simp only: denorm_min_def power_int_of_nat)
  then have "binary64 x = of_int (?n * 2 ^ m) * denorm_min"
    using False by (simp add: binary64_def Let_def)
  then show ?thesis by blast
qed

lemma denorm_min_pos: "0 < denorm_min"
  unfolding denorm_min_def by (rule zero_less_power_int) simp

lemma grid_less:
  assumes "a = of_int z * denorm_min" and "b = of_int w * denorm_min" and "0 \<le> a" and "a < b"
  shows "nat \<lfloor>a / denorm_min\<rfloor> < nat \<lfloor>b / denorm_min\<rfloor>"
proof -
  have a: "a / denorm_min = of_int z" and b: "b / denorm_min = of_int w"
    using assms(1,2) denorm_min_pos by simp_all
  have "0 \<le> of_int z * denorm_min" "of_int z * denorm_min < of_int w * denorm_min"
    using assms by simp_all
  then have "0 \<le> z" "z < w" using denorm_min_pos by (simp_all add: zero_le_mult_iff)
  then show ?thesis unfolding a b by simp
qed

text \<open>
  The exponent of a given number is found by halving or doubling it; with this equation the
  simplifier evaluates \<open>binary64\<close> at a numeral.
\<close>

lemma floor_log2_rec:
  "0 < x \<Longrightarrow> \<lfloor>log 2 x\<rfloor> = (if x < 1 then \<lfloor>log 2 (2 * x)\<rfloor> - 1 else if 2 \<le> x then \<lfloor>log 2 (x / 2)\<rfloor> + 1 else 0)"
proof -
  assume x: "0 < x"
  have a: "log 2 (2 * x) = 1 + log 2 x" using x by (simp add: log_mult)
  have b: "log 2 (x / 2) = log 2 x - 1" using x by (simp add: log_divide)
  have c: "1 \<le> x \<Longrightarrow> x < 2 \<Longrightarrow> \<lfloor>log 2 x\<rfloor> = 0"
  proof -
    assume "1 \<le> x" "x < 2"
    then have "0 \<le> log 2 x" "log 2 x < log 2 2" using x by simp_all
    then show ?thesis by simp linarith
  qed
  show ?thesis using a b c by (auto simp: not_less)
qed

lemmas binary64_eval = binary64_def exponent_def round_ties_even_def floor_log2_rec

subsection \<open>The reduction in double precision\<close>

text \<open>
  The integer matrices are multiplied exactly, so that the loop keeps them inverse to each
  other and of determinant 1, whatever the rounding does to the lattice.
\<close>

lemma propose_double_unimodular:
  assumes "unimodular st" and "fst c < 3"
  shows "unimodular (propose_double thr nrm2 st c)"
proof -
  obtain k1 i j where c: "c = (k1, i, j)" by (cases c)
  have k: "k1 < 3" using assms c by simp
  let ?t = "transmission st" and ?u = "invTransmission st"
  have "mmul (mmul ?t (shear k1 i j)) (mmul (shear k1 (- i) (- j)) ?u)
        = mmul ?t (mmul (mmul (shear k1 i j) (shear k1 (- i) (- j))) ?u)"
    by (simp only: mmul_assoc)
  also have "\<dots> = diag3 1 1 1"
    using assms k by (simp add: shear_inverse mmul_eye_left unimodular_def)
  finally have 1: "mmul (mmul ?t (shear k1 i j)) (mmul (shear k1 (- i) (- j)) ?u) = diag3 1 1 1" .
  have "mmul (mmul (shear k1 (- i) (- j)) ?u) (mmul ?t (shear k1 i j))
        = mmul (shear k1 (- i) (- j)) (mmul (mmul ?u ?t) (shear k1 i j))"
    by (simp only: mmul_assoc)
  also have "\<dots> = diag3 1 1 1"
    using assms k by (simp add: shear_inverse' mmul_eye_left unimodular_def)
  finally show ?thesis
    using assms k 1
    by (simp add: propose_double_def c Let_def unimodular_def det_mmul det_shear)
qed

lemma foldl_propose_double_unimodular:
  "unimodular st \<Longrightarrow> \<forall>c\<in>set cs. fst c < 3 \<Longrightarrow> unimodular (foldl (propose_double thr nrm2) st cs)"
  by (induction cs arbitrary: st) (simp_all add: propose_double_unimodular)

lemma sweep_double_unimodular: "unimodular st \<Longrightarrow> unimodular (sweep_double thr nrm2 st)"
  unfolding sweep_double_def
  by (rule foldl_propose_double_unimodular) (auto simp: unimodular_def dest: proposals_k1)

lemma reduce_loop_double_rule:
  assumes "reduce_loop_double thr nrm2 st = Some st'" and "I st"
    and "\<And>s. I s \<Longrightarrow> I (sweep_double thr nrm2 s)"
  shows "I st'"
proof -
  have "I st \<longrightarrow> (\<forall>s. I s \<longrightarrow> I (sweep_double thr nrm2 s)) \<longrightarrow> I st'"
    by (rule reduce_loop_double.raw_induct[OF _ assms(1),
          where P = "\<lambda>thr nrm2 st st'. I st \<longrightarrow> (\<forall>s. I s \<longrightarrow> I (sweep_double thr nrm2 s)) \<longrightarrow> I st'"])
       (auto simp: Let_def split: if_splits)
  with assms(2,3) show ?thesis by blast
qed

lemma propose_double_accept:
  "accepts_double thr nrm2 (Rreduced st) c \<Longrightarrow>
     changed (propose_double thr nrm2 st c) \<and>
     nrm2 (Rreduced (propose_double thr nrm2 st c)) < binary64 (nrm2 (Rreduced st) - thr)"
  by (cases c) (simp add: propose_double_def accepts_double_def Let_def)

lemma propose_double_reject:
  "\<not> accepts_double thr nrm2 (Rreduced st) c \<Longrightarrow> propose_double thr nrm2 st c = st"
  by (cases c) (simp add: propose_double_def accepts_double_def Let_def)

lemma foldl_propose_double_none:
  "\<forall>c\<in>set cs. \<not> accepts_double thr nrm2 (Rreduced st) c \<Longrightarrow>
     foldl (propose_double thr nrm2) st cs = st"
  by (induction cs) (simp_all add: propose_double_reject)

text \<open>Subtracting a tolerance and rounding does not exceed a value that is itself a double.\<close>

lemma rounded_difference_le:
  assumes "0 \<le> thr" and "0 \<le> x" and "binary64 x = x"
  shows "binary64 (x - thr) \<le> x"
proof (cases "0 \<le> x - thr")
  case True
  from binary64_mono[OF True, of x] assms show ?thesis by simp
next
  case False
  then have "binary64 (x - thr) \<le> 0" by (intro binary64_nonpos) simp
  with assms(2) show ?thesis by simp
qed

lemma foldl_propose_double_decr:
  assumes "0 \<le> thr" and "double_valued nrm2"
  shows "nrm2 (Rreduced (foldl (propose_double thr nrm2) st cs)) \<le> nrm2 (Rreduced st) \<and>
     (changed (foldl (propose_double thr nrm2) st cs) \<and> \<not> changed st \<longrightarrow>
        nrm2 (Rreduced (foldl (propose_double thr nrm2) st cs)) < nrm2 (Rreduced st))"
proof (induction cs arbitrary: st)
  case (Cons c cs)
  show ?case
  proof (cases "accepts_double thr nrm2 (Rreduced st) c")
    case True
    have "binary64 (nrm2 (Rreduced st) - thr) \<le> nrm2 (Rreduced st)"
      using assms by (intro rounded_difference_le) (simp_all add: double_valued_def)
    with propose_double_accept[OF True] Cons.IH[of "propose_double thr nrm2 st c"]
    show ?thesis by auto
  next
    case False
    then show ?thesis using Cons by (simp add: propose_double_reject)
  qed
qed simp

lemma sweep_double_decr:
  assumes "0 \<le> thr" and "double_valued nrm2" and "changed (sweep_double thr nrm2 st)"
  shows "nrm2 (Rreduced (sweep_double thr nrm2 st)) < nrm2 (Rreduced st)"
  using foldl_propose_double_decr[OF assms(1,2), of "st\<lparr>changed := False\<rparr>" proposals] assms(3)
  by (simp add: sweep_double_def)

text \<open>
  The loop returns in double precision as well: every sweep that changes the lattice lowers
  \<open>nrm2\<close>, whose values are non-negative multiples of the smallest positive double.
\<close>

lemma reduce_loop_double_returns:
  assumes "0 \<le> thr" and "double_valued nrm2"
  shows "\<exists>st'. reduce_loop_double thr nrm2 st = Some st'"
proof (induction "nat \<lfloor>nrm2 (Rreduced st) / denorm_min\<rfloor>" arbitrary: st rule: less_induct)
  case less
  show ?case
  proof (cases "changed (sweep_double thr nrm2 st)")
    case False
    then show ?thesis by (subst reduce_loop_double.simps) (simp add: Let_def)
  next
    case True
    let ?s = "sweep_double thr nrm2 st"
    have d: "nrm2 (Rreduced ?s) < nrm2 (Rreduced st)"
      by (rule sweep_double_decr[OF assms True])
    obtain z where z: "nrm2 (Rreduced ?s) = of_int z * denorm_min"
      using binary64_grid[of "nrm2 (Rreduced ?s)"] assms(2) by (auto simp: double_valued_def)
    obtain w where w: "nrm2 (Rreduced st) = of_int w * denorm_min"
      using binary64_grid[of "nrm2 (Rreduced st)"] assms(2) by (auto simp: double_valued_def)
    have "0 \<le> nrm2 (Rreduced ?s)" using assms(2) by (simp add: double_valued_def)
    from less[OF grid_less[OF z w this d]] True show ?thesis
      by (subst reduce_loop_double.simps) (simp add: Let_def)
  qed
qed

lemma reduce_init_unimodular: "unimodular (reduce_init R)"
  by (simp add: unimodular_def reduce_init_def mmul_eye_right) (simp add: diag3_def)

lemma reduceLatticeVectors_double_alt:
  "reduceLatticeVectors_double thr nrm2 R =
     map_option (\<lambda>st. (Rreduced st, transmission st, invTransmission st))
       (reduce_loop_double thr nrm2 (reduce_init R))"
  by (simp add: reduceLatticeVectors_double_def reduce_init_def)

lemma reduce_double_returns:
  assumes "0 \<le> thr" and "double_valued nrm2"
  shows "\<exists>Rr T Ti. reduceLatticeVectors_double thr nrm2 R = Some (Rr, T, Ti)"
  using reduce_loop_double_returns[OF assms, of "reduce_init R"]
  by (auto simp: reduceLatticeVectors_double_alt)

lemma reduce_double_result:
  assumes "reduceLatticeVectors_double thr nrm2 R = Some (Rr, T, Ti)"
  shows "mmul T Ti = diag3 1 1 1 \<and> mmul Ti T = diag3 1 1 1 \<and> det T = 1"
proof -
  from assms obtain st' where st': "reduce_loop_double thr nrm2 (reduce_init R) = Some st'"
    and r: "T = transmission st'" "Ti = invTransmission st'"
    by (auto simp: reduceLatticeVectors_double_alt)
  from reduce_loop_double_rule[OF st', of unimodular] reduce_init_unimodular sweep_double_unimodular
  have "unimodular st'" by blast
  then show ?thesis by (simp add: unimodular_def r)
qed

lemma sum_of_squares_nonneg:
  "0 \<le> s \<Longrightarrow> 0 \<le> foldl (\<lambda>s x. binary64 (s + binary64 (x * x))) s xs"
  by (induction xs arbitrary: s) (simp_all add: binary64_nonneg)

lemma frob2_double_nonneg: "0 \<le> frob2_double m"
proof (cases m)
  case (Matrix3 a b c d e f g h k)
  show ?thesis unfolding Matrix3 frob2_double.simps by (rule sum_of_squares_nonneg) simp
qed

lemma frob2_double_idem: "binary64 (frob2_double m) = frob2_double m"
  by (cases m) (simp add: binary64_idem binary64_nonneg)

lemma frob_double_valued: "double_valued frob_double"
  by (simp add: double_valued_def frob_double_def binary64_idem binary64_nonneg frob2_double_nonneg)

lemma frob2_double_valued: "double_valued frob2_double"
  by (simp add: double_valued_def frob2_double_nonneg frob2_double_idem)

text \<open>A run in which one shear is accepted and a second sweep changes nothing.\<close>

lemma reduce_double_one_shear:
  assumes p: "proposals = pre @ (k1, i, j) # post"
    and pre: "\<forall>x\<in>set pre. \<not> accepts_double thr nrm2 R x"
    and acc: "accepts_double thr nrm2 R (k1, i, j)"
    and fp: "\<forall>x\<in>set proposals. \<not> accepts_double thr nrm2 (mmul_double R (mreal (shear k1 i j))) x"
  shows "reduceLatticeVectors_double thr nrm2 R
           = Some (mmul_double R (mreal (shear k1 i j)), shear k1 i j, shear k1 (- i) (- j))"
proof -
  let ?R' = "mmul_double R (mreal (shear k1 i j))"
  let ?s0 = "(reduce_init R)\<lparr>changed := False\<rparr>"
  let ?s1 = "\<lparr>Rreduced = ?R', transmission = shear k1 i j,
              invTransmission = shear k1 (- i) (- j), changed = True\<rparr>"
  have a: "foldl (propose_double thr nrm2) ?s0 pre = ?s0"
    using pre by (intro foldl_propose_double_none) (simp add: reduce_init_def)
  have b: "propose_double thr nrm2 ?s0 (k1, i, j) = ?s1"
    using acc by (simp add: propose_double_def accepts_double_def reduce_init_def Let_def
                      mmul_eye_left mmul_eye_right)
  have "set post \<subseteq> set proposals" by (auto simp: p)
  with fp have c: "foldl (propose_double thr nrm2) ?s1 post = ?s1"
    by (intro foldl_propose_double_none) auto
  have s1: "sweep_double thr nrm2 (reduce_init R) = ?s1"
    by (simp add: sweep_double_def p a b c)
  have "foldl (propose_double thr nrm2) (?s1\<lparr>changed := False\<rparr>) proposals = ?s1\<lparr>changed := False\<rparr>"
    using fp by (intro foldl_propose_double_none) simp
  then have s2: "sweep_double thr nrm2 ?s1 = ?s1\<lparr>changed := False\<rparr>"
    by (simp add: sweep_double_def)
  have "reduce_loop_double thr nrm2 ?s1 = Some (?s1\<lparr>changed := False\<rparr>)"
    by (subst reduce_loop_double.simps) (simp add: Let_def s2)
  then have "reduce_loop_double thr nrm2 (reduce_init R) = Some (?s1\<lparr>changed := False\<rparr>)"
    by (subst reduce_loop_double.simps) (simp add: Let_def s1)
  then show ?thesis by (simp add: reduceLatticeVectors_double_alt)
qed

text \<open>
  A proposal that does not lower the rounded sum of squares is rejected, for either reading
  of \<open>nrm2\<close>.
\<close>

lemma frob_double_reject:
  assumes "frob2_double R \<le> frob2_double (mmul_double R (mreal (shear k1 i j)))" and "0 \<le> thr"
  shows "\<not> accepts_double thr frob_double R (k1, i, j)"
proof -
  let ?P = "mmul_double R (mreal (shear k1 i j))"
  have "sqrt (frob2_double R) \<le> sqrt (frob2_double ?P)" using assms(1) by simp
  then have "frob_double R \<le> frob_double ?P"
    unfolding frob_double_def by (intro binary64_mono) (simp_all add: frob2_double_nonneg)
  moreover have "binary64 (frob_double R - thr) \<le> frob_double R"
    using frob_double_valued assms(2) by (intro rounded_difference_le) (simp_all add: double_valued_def)
  ultimately show ?thesis by (simp add: accepts_double_def)
qed

lemma frob2_double_reject:
  assumes "frob2_double R \<le> frob2_double (mmul_double R (mreal (shear k1 i j)))" and "0 \<le> thr"
  shows "\<not> accepts_double thr frob2_double R (k1, i, j)"
proof -
  have "binary64 (frob2_double R - thr) \<le> frob2_double R"
    using frob2_double_valued assms(2) by (intro rounded_difference_le) (simp_all add: double_valued_def)
  with assms(1) show ?thesis by (simp add: accepts_double_def)
qed

text \<open>
  The roundings that occur when the loop runs on \<open>R_noise\<close>; the larger denominators are
  \<open>2 ^ 54\<close> and \<open>2 ^ 108\<close>.
\<close>

lemma binary64_values:
  "binary64 0 = 0" "binary64 1 = 1" "binary64 (- 1) = - 1" "binary64 2 = 2" "binary64 3 = 3"
  "binary64 4 = 4" "binary64 5 = 5" "binary64 6 = 6" "binary64 7 = 7" "binary64 8 = 8" "binary64 9 = 9"
  "binary64 (1 / 18014398509481984) = 1 / 18014398509481984"
  "binary64 (- (1 / 18014398509481984)) = - (1 / 18014398509481984)"
  "binary64 (1 / 324518553658426726783156020576256) = 1 / 324518553658426726783156020576256"
  "binary64 (18014398509481983 / 18014398509481984) = 1"
  "binary64 (18014398509481985 / 18014398509481984) = 1"
  "binary64 (- (18014398509481983 / 18014398509481984)) = - 1"
  "binary64 (- (18014398509481985 / 18014398509481984)) = - 1"
  "binary64 (324518553658426726783156020576257 / 324518553658426726783156020576256) = 1"
  "binary64 (649037107316853453566312041152513 / 324518553658426726783156020576256) = 2"
  "binary64 (973555660975280180349468061728769 / 324518553658426726783156020576256) = 3"
  "binary64 (1622592768292133633915780102881281 / 324518553658426726783156020576256) = 5"
  by (simp_all add: binary64_eval)

lemmas double_eval =
  mmul_double_def shear_def mset_def diag3_def binary64_values

lemma frob2_noise: "frob2_double R_noise = 4" "frob2_double R_noise_reduced = 3"
  by (simp_all add: R_noise_def R_noise_reduced_def double_eval)

lemma shear_noise: "mmul_double R_noise (mreal (shear 1 0 (- 1))) = R_noise_reduced"
  by (simp add: R_noise_def R_noise_reduced_def double_eval)

lemma proposals_split:
  "proposals = [(0, - 1, - 1), (0, - 1, 0), (0, - 1, 1), (0, 0, - 1), (0, 0, 0), (0, 0, 1),
                (0, 1, - 1), (0, 1, 0), (0, 1, 1), (1, - 1, - 1), (1, - 1, 0), (1, - 1, 1)]
               @ (1, 0, - 1) #
               [(1, 0, 0), (1, 0, 1), (1, 1, - 1), (1, 1, 0), (1, 1, 1), (2, - 1, - 1), (2, - 1, 0),
                (2, - 1, 1), (2, 0, - 1), (2, 0, 0), (2, 0, 1), (2, 1, - 1), (2, 1, 0), (2, 1, 1)]"
  by (simp add: proposals_def)

lemma noise_before:
  "\<forall>(k1, i, j)\<in>set [(0, - 1, - 1), (0, - 1, 0), (0, - 1, 1), (0, 0, - 1), (0, 0, 0), (0, 0, 1),
                (0, 1, - 1), (0, 1, 0), (0, 1, 1), (1, - 1, - 1), (1, - 1, 0), (1, - 1, 1)].
     frob2_double R_noise \<le> frob2_double (mmul_double R_noise (mreal (shear k1 i j)))"
  unfolding frob2_noise by (simp add: R_noise_def double_eval)

lemma noise_after:
  "\<forall>(k1, i, j)\<in>set proposals.
     frob2_double R_noise_reduced \<le> frob2_double (mmul_double R_noise_reduced (mreal (shear k1 i j)))"
  unfolding frob2_noise by (simp add: proposals_def R_noise_reduced_def double_eval)


lemma thr_double: "binary64 (1 / 10000) = 7378697629483821 / 73786976294838206464"
  by (simp add: binary64_eval)

lemma noise_accepted:
  "accepts_double (binary64 (1 / 10000)) frob_double R_noise (1, 0, - 1)"
  "accepts_double (binary64 (1 / 10000)) frob2_double R_noise (1, 0, - 1)"
proof -
  have "sqrt 3 \<le> 7 / 4" by (rule real_le_lsqrt) (simp_all add: power2_eq_square)
  then have "binary64 (sqrt 3) \<le> binary64 (7 / 4)" by (intro binary64_mono) simp_all
  also have "binary64 (7 / 4) = 7 / 4" by (simp add: binary64_eval)
  finally have a: "frob_double R_noise_reduced \<le> 7 / 4" by (simp add: frob_double_def frob2_noise)
  have b: "frob_double R_noise = 2" by (simp add: frob_double_def frob2_noise binary64_values)
  have c: "7 / 4 < binary64 (2 - binary64 (1 / 10000))" unfolding thr_double by (simp add: binary64_eval)
  show "accepts_double (binary64 (1 / 10000)) frob_double R_noise (1, 0, - 1)"
    unfolding accepts_double_def prod.case shear_noise b using a c by linarith
  have d: "3 < binary64 (4 - binary64 (1 / 10000))" unfolding thr_double by (simp add: binary64_eval)
  show "accepts_double (binary64 (1 / 10000)) frob2_double R_noise (1, 0, - 1)"
    unfolding accepts_double_def prod.case shear_noise frob2_noise by (rule d)
qed

lemma thr_double_nonneg: "0 \<le> binary64 (1 / 10000)"
  by (rule binary64_nonneg) simp

lemma reduce_double_noise:
  "reduceLatticeVectors_double (binary64 (1 / 10000)) frob_double R_noise
     = Some (R_noise_reduced, shear 1 0 (- 1), shear 1 0 1)"
  "reduceLatticeVectors_double (binary64 (1 / 10000)) frob2_double R_noise
     = Some (R_noise_reduced, shear 1 0 (- 1), shear 1 0 1)"
proof -
  have 1: "\<forall>x\<in>set proposals. \<not> accepts_double (binary64 (1 / 10000)) frob_double R_noise_reduced x"
    using noise_after frob_double_reject[OF _ thr_double_nonneg] by fastforce
  have 2: "\<forall>x\<in>set proposals. \<not> accepts_double (binary64 (1 / 10000)) frob2_double R_noise_reduced x"
    using noise_after frob2_double_reject[OF _ thr_double_nonneg] by fastforce
  from reduce_double_one_shear[OF proposals_split _ noise_accepted(1)] 1
       noise_before frob_double_reject[OF _ thr_double_nonneg]
  show "reduceLatticeVectors_double (binary64 (1 / 10000)) frob_double R_noise
     = Some (R_noise_reduced, shear 1 0 (- 1), shear 1 0 1)"
    unfolding shear_noise by fastforce
  from reduce_double_one_shear[OF proposals_split _ noise_accepted(2)] 2
       noise_before frob2_double_reject[OF _ thr_double_nonneg]
  show "reduceLatticeVectors_double (binary64 (1 / 10000)) frob2_double R_noise
     = Some (R_noise_reduced, shear 1 0 (- 1), shear 1 0 1)"
    unfolding shear_noise by fastforce
qed

subsection \<open>Claims about reduceLatticeVectors\<close>

text \<open>
  C4: for a positive threshold, \<open>reduceLatticeVectors\<close> returns a reduced lattice with two
  integer matrices \<open>T\<close> and \<open>Tinv\<close> such that \<open>Rreduced = R \<cdot> T\<close> and \<open>T \<cdot> Tinv = I\<close>.
  (With doubles as reals the first equation is exact.)
\<close>

theorem reduceLatticeVectors_correct:
  assumes "0 < thr" and "norm_like nrm2"
  shows "\<exists>Rr T Ti. reduceLatticeVectors thr nrm2 R = Some (Rr, T, Ti) \<and>
           Rr = mmul R (mreal T) \<and> mmul T Ti = diag3 1 1 1"
proof -
  from reduce_returns[OF assms] obtain Rr T Ti
    where r: "reduceLatticeVectors thr nrm2 R = Some (Rr, T, Ti)" by blast
  from reduce_result_inv[OF r] r show ?thesis by blast
qed

theorem reduceLatticeVectors_correct_witness:
  "0 < (1 / 10000 :: real) \<and> norm_like frob \<and>
   (\<exists>Rr T Ti. reduceLatticeVectors (1 / 10000) frob (Matrix3 1 10 0  0 1 0  0 0 1) = Some (Rr, T, Ti) \<and>
      Rr = mmul (Matrix3 1 10 0  0 1 0  0 0 1) (mreal T) \<and> mmul T Ti = diag3 1 1 1)"
  using reduceLatticeVectors_correct[of "1 / 10000" frob "Matrix3 1 10 0  0 1 0  0 0 1"]
        frob_norm_like
  by simp

text \<open>
  C9: the reduction is idempotent. It returns, and applied to the lattice it returned it
  returns that lattice unchanged (with the identity as transmission matrix): no shear with
  coefficients in \<open>{-1, 0, 1}\<close> is accepted there.
\<close>

theorem reduceLatticeVectors_idempotent:
  assumes "0 < thr" and "norm_like nrm2"
  shows "\<exists>Rr T Ti. reduceLatticeVectors thr nrm2 R = Some (Rr, T, Ti) \<and>
           reduceLatticeVectors thr nrm2 Rr = Some (Rr, diag3 1 1 1, diag3 1 1 1) \<and>
           (\<forall>c\<in>set proposals. \<not> accepts thr nrm2 Rr c)"
proof -
  from reduce_returns[OF assms] obtain Rr T Ti
    where r: "reduceLatticeVectors thr nrm2 R = Some (Rr, T, Ti)" by blast
  from reduce_result_fix[OF r] reduce_of_fix[of thr nrm2 Rr] r show ?thesis by blast
qed

theorem reduceLatticeVectors_idempotent_witness:
  "0 < (1 / 10000 :: real) \<and> norm_like frob \<and>
   (\<exists>Rr T Ti. reduceLatticeVectors (1 / 10000) frob (Matrix3 1 10 0  0 1 0  0 0 1) = Some (Rr, T, Ti) \<and>
      reduceLatticeVectors (1 / 10000) frob Rr = Some (Rr, diag3 1 1 1, diag3 1 1 1) \<and>
      (\<forall>c\<in>set proposals. \<not> accepts (1 / 10000) frob Rr c))"
  using reduceLatticeVectors_idempotent[of "1 / 10000" frob "Matrix3 1 10 0  0 1 0  0 0 1"]
        frob_norm_like
  by simp

text \<open>
  C10 as stated fails in the arithmetic of the code: for the lattice \<open>R_noise\<close> and
  \<^verbatim>\<open>symmThreshold = 1e-4\<close> the reduction in double precision accepts one shear, which
  subtracts the first lattice vector from the second. The component \<open>1 - 1 / 2 ^ 54\<close> of
  the difference is halfway between two doubles and is rounded to 1, so that the lattice
  returned has determinant 1 where the lattice given has \<open>1 - 1 / 2 ^ 54\<close>; this for
  \<open>nrm2\<close> the Frobenius norm or its square. (In this run every entry of a product is a sum
  with at most two non-zero terms, whose factors from \<open>d\<close> are 1 or -1, and every sum of
  squares is a positive integer below 10 plus at most a few times \<open>1 / 2 ^ 108\<close>, which is
  rounded to that integer: neither depends on the order of accumulation.)
\<close>

theorem reduction_rounding_counterexample:
  "reduceLatticeVectors_double (binary64 (1 / 10000)) frob_double R_noise
     = Some (R_noise_reduced, Matrix3 1 (- 1) 0  0 1 0  0 0 1, Matrix3 1 1 0  0 1 0  0 0 1) \<and>
   reduceLatticeVectors_double (binary64 (1 / 10000)) frob2_double R_noise
     = Some (R_noise_reduced, Matrix3 1 (- 1) 0  0 1 0  0 0 1, Matrix3 1 1 0  0 1 0  0 0 1) \<and>
   det (Matrix3 1 (- 1) 0  0 1 0  0 0 (1::int)) = 1 \<and>
   det R_noise = 1 - 1 / 2 ^ 54 \<and> det R_noise_reduced = 1 \<and> det R_noise < det R_noise_reduced"
  by (simp add: reduce_double_noise) (simp add: shear_def mset_def diag3_def R_noise_def R_noise_reduced_def)

text \<open>
  C10, as amended: every elementary shear of the reduction has determinant 1, and the
  transmission matrix \<open>T\<close> returned has determinant \<open>+1\<close>, in exact arithmetic and in
  double precision alike, so that the exact product \<open>R * T\<close> has the determinant of \<open>R\<close>.
  The lattice returned is that product in exact arithmetic, where it has the determinant of
  the lattice given; in double precision it is the product with every sheared column rounded,
  and its determinant need not be that of \<open>R\<close>.
\<close>

theorem reduction_preserves_det:
  assumes "0 < thr" and "norm_like nrm2" and "double_valued nrm2d"
  shows "(\<forall>c\<in>set proposals. case c of (k1, i, j) \<Rightarrow> det (shear k1 i j) = 1) \<and>
         (\<exists>Rr T Ti. reduceLatticeVectors thr nrm2 R = Some (Rr, T, Ti) \<and>
            det T = 1 \<and> Rr = mmul R (mreal T) \<and> det Rr = det R) \<and>
         (\<exists>Rr T Ti. reduceLatticeVectors_double thr nrm2d R = Some (Rr, T, Ti) \<and>
            det T = 1 \<and> det (mmul R (mreal T)) = det R)"
proof -
  from reduce_returns[OF assms(1,2)] obtain Rr T Ti
    where r: "reduceLatticeVectors thr nrm2 R = Some (Rr, T, Ti)" by blast
  from reduce_result_inv[OF r] have e: "det T = 1" "Rr = mmul R (mreal T)" "det Rr = det R"
    by (simp_all add: det_mmul det_mreal)
  from assms(1) have "0 \<le> thr" by simp
  from reduce_double_returns[OF this assms(3)] obtain Rd Td Tdi
    where d: "reduceLatticeVectors_double thr nrm2d R = Some (Rd, Td, Tdi)" by blast
  from reduce_double_result[OF d] have "det Td = 1" by simp
  then have "det Td = 1" "det (mmul R (mreal Td)) = det R" by (simp_all add: det_mmul det_mreal)
  with d have 3: "\<exists>Rr T Ti. reduceLatticeVectors_double thr nrm2d R = Some (Rr, T, Ti) \<and>
            det T = 1 \<and> det (mmul R (mreal T)) = det R" by blast
  from r e have 2: "\<exists>Rr T Ti. reduceLatticeVectors thr nrm2 R = Some (Rr, T, Ti) \<and>
            det T = 1 \<and> Rr = mmul R (mreal T) \<and> det Rr = det R" by blast
  have 1: "\<forall>c\<in>set proposals. case c of (k1, i, j) \<Rightarrow> det (shear k1 i j) = 1"
    by (auto dest: proposals_k1 simp: det_shear)
  from 1 2 3 show ?thesis by blast
qed

theorem reduction_preserves_det_witness:
  "0 < binary64 (1 / 10000) \<and> norm_like frob \<and> double_valued frob_double \<and>
   (0, - 1, 1) \<in> set proposals \<and> det (shear 0 (- 1) 1) = 1 \<and>
   (\<exists>Rr T Ti. reduceLatticeVectors (binary64 (1 / 10000)) frob R_noise = Some (Rr, T, Ti) \<and>
      det T = 1 \<and> Rr = mmul R_noise (mreal T) \<and> det Rr = det R_noise) \<and>
   (\<exists>Rr T Ti. reduceLatticeVectors_double (binary64 (1 / 10000)) frob_double R_noise = Some (Rr, T, Ti) \<and>
      det T = 1 \<and> det (mmul R_noise (mreal T)) = det R_noise)"
proof -
  have t: "0 < binary64 (1 / 10000)" unfolding thr_double by simp
  have p: "(0, - 1, 1) \<in> set proposals" by (simp add: proposals_def)
  from reduction_preserves_det[OF t frob_norm_like frob_double_valued, of R_noise]
  have a: "\<forall>c\<in>set proposals. case c of (k1, i, j) \<Rightarrow> det (shear k1 i j) = 1"
    and b: "\<exists>Rr T Ti. reduceLatticeVectors (binary64 (1 / 10000)) frob R_noise = Some (Rr, T, Ti) \<and>
      det T = 1 \<and> Rr = mmul R_noise (mreal T) \<and> det Rr = det R_noise"
    and c: "\<exists>Rr T Ti. reduceLatticeVectors_double (binary64 (1 / 10000)) frob_double R_noise = Some (Rr, T, Ti) \<and>
      det T = 1 \<and> det (mmul R_noise (mreal T)) = det R_noise"
    by blast+
  from a p have "det (shear 0 (- 1) 1) = 1" by fastforce
  with t p b c frob_norm_like frob_double_valued show ?thesis by blast
qed

subsection \<open>The symmetries\<close>

lemma comprehension9_iff:
  "Matrix3 a b c d e f g h k \<in> set [Matrix3 a b c d e f g h k.
        a \<leftarrow> xs, b \<leftarrow> xs, c \<leftarrow> xs, d \<leftarrow> xs, e \<leftarrow> xs, f \<leftarrow> xs, g \<leftarrow> xs, h \<leftarrow> xs, k \<leftarrow> xs]
   \<longleftrightarrow> a \<in> set xs \<and> b \<in> set xs \<and> c \<in> set xs \<and> d \<in> set xs \<and> e \<in> set xs \<and> f \<in> set xs
        \<and> g \<in> set xs \<and> h \<in> set xs \<and> k \<in> set xs"
  by (simp add: image_iff)

lemma candidates_iff: "m \<in> set candidates \<longleftrightarrow> list_all (\<lambda>x. x \<in> {-1, 0, 1}) (entries m)"
proof (cases m)
  case (Matrix3 a b c d e f g h k)
  show ?thesis
    unfolding Matrix3 candidates_def comprehension9_iff by simp
qed

lemma eye_candidate: "diag3 1 1 1 \<in> set candidates"
  by (simp add: candidates_iff diag3_def)

lemma mtranspose_mmul: "mtranspose (mmul a b) = mmul (mtranspose b) (mtranspose (a::'a::comm_ring_1 matrix3))"
  by (cases a; cases b) (simp add: mmul_def algebra_simps)


lemma det_mtranspose: "det (mtranspose a) = det (a::'a::comm_ring_1 matrix3)"
  by (cases a) (simp add: algebra_simps)

lemma mmul_msub_right: "mmul a (msub b c) = msub (mmul a b) (mmul a (c::'a::comm_ring_1 matrix3))"
  by (cases a; cases b; cases c) (simp add: mmul_def algebra_simps)

lemma mmul_msub_left: "mmul (msub b c) a = msub (mmul b a) (mmul c (a::'a::comm_ring_1 matrix3))"
  by (cases a; cases b; cases c) (simp add: mmul_def algebra_simps)

lemma msub_self: "msub a a = diag3 0 0 (0::'a::comm_ring_1)"
  by (cases a) (simp add: diag3_def)

lemma det_zero: "det (diag3 0 0 0 :: 'a::comm_ring_1 matrix3) = 0"
  by (simp add: diag3_def)

lemma symBroken_eye: "\<not> symBroken (diag3 1 1 1) tr"
  by (cases tr) (simp add: symBroken_def mget_def diag3_def)

lemma getSymmetries_Some:
  assumes "reduceLatticeVectors thr nrm2 R = Some (Rred, T, Ti)"
  shows "\<exists>S. getSymmetries thr nrm2 R tr = Some (S, Rred, T, Ti) \<and>
     (\<forall>mo. mo \<in> set S \<longleftrightarrow> (\<exists>m\<in>set candidates. leaves_invariant thr nrm2 (mmul (mtranspose Rred) Rred) m
            \<and> mo = mmul (mmul T m) Ti \<and> \<not> symBroken mo tr))"
  using assms by (auto simp: getSymmetries_def Let_def split: if_splits)

lemma getSymmetries_D:
  assumes "getSymmetries thr nrm2 R tr = Some (S, Rred, T, Ti)"
  shows "reduceLatticeVectors thr nrm2 R = Some (Rred, T, Ti)"
  using assms by (auto simp: getSymmetries_def Let_def split: option.splits)

lemma eye_leaves_invariant:
  assumes "0 < thr" "norm_like nrm2" "det Rred \<noteq> 0"
  shows "leaves_invariant thr nrm2 (mmul (mtranspose Rred) Rred) (diag3 1 1 1)"
proof -
  let ?M = "mmul (mtranspose Rred) Rred"
  have "det ?M \<noteq> 0" using assms(3) by (simp add: det_mmul det_mtranspose)
  then have "?M \<noteq> diag3 0 0 0" using det_zero[where 'a = real] by metis
  then have "0 < nrm2 ?M" using assms(2) unfolding norm_like_def by (metis order_less_le)
  moreover have "nrm2 (diag3 0 0 0) = 0" using assms(2) unfolding norm_like_def by blast
  moreover have "mtranspose (diag3 1 1 1) = (diag3 1 1 1 :: real matrix3)" by (simp add: diag3_def)
  ultimately show ?thesis using assms(1)
    by (simp add: leaves_invariant_def mreal_eye mmul_eye_left mmul_eye_right msub_self)
qed

lemma reduced_metric:
  assumes "Rred = mmul R (mreal T)"
  shows "mmul (mtranspose Rred) Rred
         = mmul (mmul (mtranspose (mreal T)) (mmul (mtranspose R) R)) (mreal T)"
  by (simp add: assms mtranspose_mmul mmul_assoc)

lemma metric_defect_reduced:
  fixes G :: "real matrix3"
  assumes "mmul Ti T = diag3 1 1 1" and "mo = mmul (mmul T m) Ti"
  shows "mmul (mmul (mtranspose (mreal T)) (msub G (mmul (mmul (mtranspose (mreal mo)) G) (mreal mo)))) (mreal T)
         = msub (mmul (mmul (mtranspose (mreal T)) G) (mreal T))
             (mmul (mmul (mtranspose (mreal m)) (mmul (mmul (mtranspose (mreal T)) G) (mreal T))) (mreal m))"
proof -
  have "mmul mo T = mmul T m"
    using assms by (simp add: mmul_assoc mmul_eye_right)
  then have e: "mmul (mreal mo) (mreal T) = mmul (mreal T) (mreal m)"
    by (metis mreal_mmul)
  then have e': "mmul (mtranspose (mreal T)) (mtranspose (mreal mo)) = mmul (mtranspose (mreal m)) (mtranspose (mreal T))"
    by (metis mtranspose_mmul)
  have "mmul (mmul (mtranspose (mreal T)) (mmul (mmul (mtranspose (mreal mo)) G) (mreal mo))) (mreal T)
        = mmul (mmul (mmul (mtranspose (mreal T)) (mtranspose (mreal mo))) G) (mmul (mreal mo) (mreal T))"
    by (simp only: mmul_assoc)
  also have "\<dots> = mmul (mmul (mmul (mtranspose (mreal m)) (mtranspose (mreal T))) G) (mmul (mreal T) (mreal m))"
    by (simp only: e e')
  also have "\<dots> = mmul (mmul (mtranspose (mreal m)) (mmul (mmul (mtranspose (mreal T)) G) (mreal T))) (mreal m)"
    by (simp only: mmul_assoc)
  finally show ?thesis
    by (simp only: mmul_msub_left mmul_msub_right)
qed

lemma frob_no_accept: "frob2 b \<le> frob2 a \<Longrightarrow> 0 \<le> thr \<Longrightarrow> \<not> frob a < frob b - thr"
proof -
  assume "frob2 b \<le> frob2 a" "0 \<le> thr"
  then have "frob b \<le> frob a" by (simp add: frob_def)
  with \<open>0 \<le> thr\<close> show ?thesis by simp
qed

lemma sqrt_less_scaled: "0 \<le> c \<Longrightarrow> x < c * c * y \<Longrightarrow> sqrt x < c * sqrt y"
proof -
  assume c: "0 \<le> c" and "x < c * c * y"
  then have "sqrt x < sqrt (c * c * y)" by simp
  also have "\<dots> = c * sqrt y" using c by (simp add: real_sqrt_mult)
  finally show ?thesis .
qed

lemma sqrt_not_less: "0 \<le> c \<Longrightarrow> c * c \<le> x \<Longrightarrow> \<not> sqrt x < c"
proof -
  assume c: "0 \<le> c" and "c * c \<le> x"
  then have "sqrt (c * c) \<le> sqrt x" by (simp only: real_sqrt_le_iff)
  then show ?thesis using c by simp
qed

lemma R_strained_frob2_fix:
  "\<forall>c\<in>set proposals. case c of (k1, i, j) \<Rightarrow> frob2 R_strained \<le> frob2 (mmul R_strained (mreal (shear k1 i j)))"
  by (simp add: proposals_def shear_def mset_def diag3_def mmul_def R_strained_def)

lemma R_strained_reduced_frob:
  "reduceLatticeVectors (1 / 10000) frob R_strained = Some (R_strained, diag3 1 1 1, diag3 1 1 1)"
proof (rule reduce_of_fix)
  show "\<forall>c\<in>set proposals. \<not> accepts (1 / 10000) frob R_strained c"
  proof
    fix c assume c: "c \<in> set proposals"
    obtain k1 i j where e: "c = (k1, i, j)" by (cases c)
    with c R_strained_frob2_fix
    have "frob2 R_strained \<le> frob2 (mmul R_strained (mreal (shear k1 i j)))" by fastforce
    from frob_no_accept[OF this, of "1 / 10000"]
    show "\<not> accepts (1 / 10000) frob R_strained c" by (simp add: accepts_def e)
  qed
qed

lemma R_strained_reduced_frob2:
  "reduceLatticeVectors (1 / 10000) frob2 R_strained = Some (R_strained, diag3 1 1 1, diag3 1 1 1)"
proof (rule reduce_of_fix)
  show "\<forall>c\<in>set proposals. \<not> accepts (1 / 10000) frob2 R_strained c"
    using R_strained_frob2_fix by (fastforce simp: accepts_def)
qed

lemma swap_xy_candidate: "swap_xy \<in> set candidates"
  by (simp add: candidates_iff swap_xy_def)

lemma swap_xy_orig: "mmul (mmul (diag3 1 1 1) swap_xy) (diag3 1 1 1) = swap_xy"
  by (simp add: mmul_eye_left mmul_eye_right)

lemma swap_xy_unbroken: "\<not> symBroken swap_xy (Vector3 False False False)"
  by (simp add: symBroken_def)

lemma swap_xy_accepted_frob:
  "leaves_invariant (1 / 10000) frob (mmul (mtranspose R_strained) R_strained) swap_xy"
  unfolding leaves_invariant_def frob_def
  by (rule sqrt_less_scaled) (simp_all add: R_strained_def swap_xy_def diag3_def mmul_def)

lemma swap_xy_accepted_frob2:
  "leaves_invariant (1 / 10000) frob2 (mmul (mtranspose R_strained) R_strained) swap_xy"
  unfolding leaves_invariant_def
  by (simp_all add: R_strained_def swap_xy_def diag3_def mmul_def)

lemma swap_xy_returned:
  assumes "reduceLatticeVectors thr nrm2 R_strained = Some (R_strained, diag3 1 1 1, diag3 1 1 1)"
    and "leaves_invariant thr nrm2 (mmul (mtranspose R_strained) R_strained) swap_xy"
  shows "swap_xy \<in> set (fst (the (getSymmetries thr nrm2 R_strained (Vector3 False False False))))"
proof -
  from getSymmetries_Some[OF assms(1), of "Vector3 False False False"]
  obtain S where S: "getSymmetries thr nrm2 R_strained (Vector3 False False False)
                       = Some (S, R_strained, diag3 1 1 1, diag3 1 1 1)"
    and m: "\<And>mo. mo \<in> set S \<longleftrightarrow>
              (\<exists>m\<in>set candidates.
                  leaves_invariant thr nrm2 (mmul (mtranspose R_strained) R_strained) m \<and>
                  mo = mmul (mmul (diag3 1 1 1) m) (diag3 1 1 1) \<and>
                  \<not> symBroken mo (Vector3 False False False))"
    by blast
  have "swap_xy \<in> set S"
    unfolding m
    using swap_xy_candidate assms(2) swap_xy_orig swap_xy_unbroken
    by (intro bexI[of _ swap_xy]) simp_all
  then show ?thesis by (simp add: S)
qed

lemma swap_xy_defect_frob2:
  "frob2 (msub (mmul (mtranspose R_strained) R_strained)
            (mmul (mmul (mtranspose (mreal swap_xy)) (mmul (mtranspose R_strained) R_strained))
               (mreal swap_xy)))
   = 2 * (40001 / 4000000) ^ 2"
  by (simp add: R_strained_def swap_xy_def diag3_def mmul_def power2_eq_square)

subsection \<open>Claims about getSymmetries\<close>

text \<open>
  C5: for a non-degenerate lattice and every truncation mask, \<open>getSymmetries\<close> returns,
  and the list of symmetries it returns contains the identity matrix.
\<close>

theorem getSymmetries_identity:
  assumes "0 < thr" and "norm_like nrm2" and "det R \<noteq> 0"
  shows "\<exists>S Rred T Ti. getSymmetries thr nrm2 R tr = Some (S, Rred, T, Ti) \<and> diag3 1 1 1 \<in> set S"
proof -
  from reduce_returns[OF assms(1,2)] obtain Rred T Ti
    where r: "reduceLatticeVectors thr nrm2 R = Some (Rred, T, Ti)" by blast
  from reduce_result_inv[OF r] have i: "Rred = mmul R (mreal T)" "mmul T Ti = diag3 1 1 1" "det T = 1"
    by simp_all
  have d: "det Rred \<noteq> 0" using i assms(3) by (simp add: det_mmul det_mreal)
  from getSymmetries_Some[OF r, of tr] obtain S where
    S: "getSymmetries thr nrm2 R tr = Some (S, Rred, T, Ti)"
    and m: "\<And>mo. mo \<in> set S \<longleftrightarrow> (\<exists>m\<in>set candidates. leaves_invariant thr nrm2 (mmul (mtranspose Rred) Rred) m
            \<and> mo = mmul (mmul T m) Ti \<and> \<not> symBroken mo tr)" by blast
  have "diag3 1 1 1 \<in> set S"
    unfolding m
    using eye_candidate eye_leaves_invariant[OF assms(1,2) d] i(2) symBroken_eye
    by (intro bexI[of _ "diag3 1 1 1"]) (simp_all add: mmul_eye_right)
  with S show ?thesis by blast
qed

theorem getSymmetries_identity_witness:
  "0 < (1 / 10000 :: real) \<and> norm_like frob \<and> det (Matrix3 1 10 0  0 1 0  0 0 1 :: real matrix3) \<noteq> 0 \<and>
   (\<exists>S Rred T Ti.
      getSymmetries (1 / 10000) frob (Matrix3 1 10 0  0 1 0  0 0 1) (Vector3 False False True)
        = Some (S, Rred, T, Ti) \<and> diag3 1 1 1 \<in> set S)"
  using getSymmetries_identity[of "1 / 10000" frob "Matrix3 1 10 0  0 1 0  0 0 1"
          "Vector3 False False True"] frob_norm_like
  by simp

text \<open>
  C6 as stated fails: for the strained cell the exchange of the first two axes is returned
  (whether \<open>nrm2\<close> is the Frobenius norm or its square), but the defect of the original metric
  has Frobenius norm about 0.014 and squared norm about 0.0002, neither below
  \<open>thr = 0.0001\<close>.
\<close>

theorem metric_invariance_counterexample:
  "swap_xy \<in> set (fst (the (getSymmetries (1 / 10000) frob R_strained (Vector3 False False False)))) \<and>
   \<not> frob (msub (mmul (mtranspose R_strained) R_strained)
              (mmul (mmul (mtranspose (mreal swap_xy)) (mmul (mtranspose R_strained) R_strained))
                 (mreal swap_xy)))
       < 1 / 10000 \<and>
   swap_xy \<in> set (fst (the (getSymmetries (1 / 10000) frob2 R_strained (Vector3 False False False)))) \<and>
   \<not> frob2 (msub (mmul (mtranspose R_strained) R_strained)
              (mmul (mmul (mtranspose (mreal swap_xy)) (mmul (mtranspose R_strained) R_strained))
                 (mreal swap_xy)))
       < 1 / 10000"
proof -
  have "\<not> sqrt (2 * (40001 / 4000000) ^ 2) < (1 / 10000 :: real)"
    by (rule sqrt_not_less) (simp_all add: power2_eq_square)
  moreover have "\<not> 2 * (40001 / 4000000) ^ 2 < (1 / 10000 :: real)"
    by (simp add: power2_eq_square)
  ultimately show ?thesis
    using swap_xy_returned[OF R_strained_reduced_frob swap_xy_accepted_frob]
          swap_xy_returned[OF R_strained_reduced_frob2 swap_xy_accepted_frob2]
    by (simp add: frob_def swap_xy_defect_frob2)
qed

text \<open>
  C6, as amended: for every operation \<open>mOrig\<close> returned, the defect of the original metric
  \<open>G - mOrig\<^sup>T G mOrig\<close> with \<open>G = R\<^sup>T R\<close>, conjugated with the transmission matrix \<open>T\<close>
  (that is, expressed in the reduced basis), has \<open>nrm2\<close> below \<open>thr\<close> times that of the
  reduced metric \<open>T\<^sup>T G T\<close>: the bound is relative and holds in the reduced basis.
\<close>

theorem getSymmetries_metric_invariance:
  assumes "0 < thr" and "norm_like nrm2"
  shows "\<exists>S Rred T Ti. getSymmetries thr nrm2 R tr = Some (S, Rred, T, Ti) \<and>
           (\<forall>mOrig\<in>set S.
              nrm2 (mmul (mmul (mtranspose (mreal T))
                      (msub (mmul (mtranspose R) R)
                         (mmul (mmul (mtranspose (mreal mOrig)) (mmul (mtranspose R) R)) (mreal mOrig))))
                      (mreal T))
              < thr * nrm2 (mmul (mmul (mtranspose (mreal T)) (mmul (mtranspose R) R)) (mreal T)))"
proof -
  from reduce_returns[OF assms(1,2)] obtain Rred T Ti
    where r: "reduceLatticeVectors thr nrm2 R = Some (Rred, T, Ti)" by blast
  from reduce_result_inv[OF r] have i: "Rred = mmul R (mreal T)" "mmul Ti T = diag3 1 1 1"
    by simp_all
  from getSymmetries_Some[OF r, of tr] obtain S where
    S: "getSymmetries thr nrm2 R tr = Some (S, Rred, T, Ti)"
    and m: "\<And>mo. mo \<in> set S \<longleftrightarrow> (\<exists>m\<in>set candidates. leaves_invariant thr nrm2 (mmul (mtranspose Rred) Rred) m
            \<and> mo = mmul (mmul T m) Ti \<and> \<not> symBroken mo tr)" by blast
  let ?G = "mmul (mtranspose R) R"
  let ?M = "mmul (mmul (mtranspose (mreal T)) ?G) (mreal T)"
  have "nrm2 (mmul (mmul (mtranspose (mreal T))
                      (msub ?G (mmul (mmul (mtranspose (mreal mo)) ?G) (mreal mo)))) (mreal T))
              < thr * nrm2 ?M" if "mo \<in> set S" for mo
  proof -
    from that m obtain m0 where m0: "leaves_invariant thr nrm2 (mmul (mtranspose Rred) Rred) m0"
       "mo = mmul (mmul T m0) Ti" by blast
    from m0(1) have "nrm2 (msub ?M (mmul (mmul (mtranspose (mreal m0)) ?M) (mreal m0))) < thr * nrm2 ?M"
      by (simp add: leaves_invariant_def reduced_metric[OF i(1)])
    then show ?thesis by (simp only: metric_defect_reduced[OF i(2) m0(2)])
  qed
  with S show ?thesis by blast
qed

theorem getSymmetries_metric_invariance_witness:
  "0 < (1 / 10000 :: real) \<and> norm_like frob \<and>
   (\<exists>S Rred T Ti.
      getSymmetries (1 / 10000) frob R_strained (Vector3 False False False) = Some (S, Rred, T, Ti) \<and>
      swap_xy \<in> set S \<and>
      (\<forall>mOrig\<in>set S.
         frob (mmul (mmul (mtranspose (mreal T))
                 (msub (mmul (mtranspose R_strained) R_strained)
                    (mmul (mmul (mtranspose (mreal mOrig)) (mmul (mtranspose R_strained) R_strained))
                       (mreal mOrig))))
                 (mreal T))
         < 1 / 10000 * frob (mmul (mmul (mtranspose (mreal T)) (mmul (mtranspose R_strained) R_strained))
                               (mreal T))))"
proof -
  have p: "0 < (1 / 10000 :: real)" by simp
  from getSymmetries_metric_invariance[OF p frob_norm_like, of R_strained "Vector3 False False False"]
  obtain S Rred T Ti where
    S: "getSymmetries (1 / 10000) frob R_strained (Vector3 False False False) = Some (S, Rred, T, Ti)"
    and b: "\<forall>mOrig\<in>set S.
         frob (mmul (mmul (mtranspose (mreal T))
                 (msub (mmul (mtranspose R_strained) R_strained)
                    (mmul (mmul (mtranspose (mreal mOrig)) (mmul (mtranspose R_strained) R_strained))
                       (mreal mOrig))))
                 (mreal T))
         < 1 / 10000 * frob (mmul (mmul (mtranspose (mreal T)) (mmul (mtranspose R_strained) R_strained))
                               (mreal T))"
    by blast
  have "swap_xy \<in> set S"
    using swap_xy_returned[OF R_strained_reduced_frob swap_xy_accepted_frob] by (simp add: S)
  with p frob_norm_like S b show ?thesis by blast
qed

subsection \<open>The closure of the k-point mesh\<close>














subsection \<open>The Bravais-lattice check and the supercell matrix\<close>

lemma length_squared_real_nonneg: "0 \<le> length_squared (v :: real vector3)"
  by (cases v) (simp add: length_squared_def)

lemma vlength_nonneg: "0 \<le> vlength v"
  by (simp add: vlength_def length_squared_real_nonneg)

lemma vlength_square: "vlength v * vlength v = length_squared v"
  by (simp add: vlength_def length_squared_real_nonneg)

lemma vlength_less_iff:
  assumes "0 \<le> c" and "0 \<le> b"
  shows "c * vlength u < b \<longleftrightarrow> c * c * length_squared u < b * b"
proof -
  have "c * vlength u = sqrt (c * c * length_squared u)"
    using assms(1) by (simp add: vlength_def real_sqrt_mult)
  moreover have "b = sqrt (b * b)" using assms(2) by simp
  ultimately have "c * vlength u < b \<longleftrightarrow> sqrt (c * c * length_squared u) < sqrt (b * b)" by simp
  then show ?thesis by (simp only: real_sqrt_less_iff)
qed


lemma thr_nonneg: "0 \<le> (1 / 10000 :: real)" by simp

lemma cross_admissible:
  "0 \<le> thr \<Longrightarrow> thr * vlength v0 < vlength (cross v0 dk)
      \<longleftrightarrow> thr * thr * length_squared v0 < length_squared (cross v0 dk)"
  using vlength_less_iff[of thr "vlength (cross v0 dk)" v0]
  by (simp add: vlength_nonneg vlength_square)

lemma box_admissible:
  "0 \<le> thr \<Longrightarrow> thr * vlength w < \<bar>b\<bar> \<longleftrightarrow> thr * thr * length_squared w < b * b"
  using vlength_less_iff[of thr "\<bar>b\<bar>" w] by simp

lemma kBasis_mesh2:
  "kBasis_of (1 / 10000) [Vector3 0 0 0, Vector3 (- 1 / 2) 0 0]
     = Matrix3 (- 1 / 2) 0 0  0 (- 1) 0  0 0 (- 1)"
  unfolding kBasis_of_def Let_def cross_admissible[OF thr_nonneg] box_admissible[OF thr_nonneg]
  by (simp add: kmesh333_of_def iZones_def shortest_dk_def DBL_MAX_def
        length_squared_def box_def diag3_def)


lemma list_ex_rounded:
  "list_ex (\<lambda>(x, n). thr < \<bar>x - real_of_int n\<bar>) (zip (entries m) (entries (map_matrix3 c_round m)))
     \<longleftrightarrow> (\<exists>x\<in>set (entries m). thr < \<bar>x - real_of_int (c_round x)\<bar>)"
  by (cases m) auto

lemma frob2_diag_shear:
  "k1 < 3 \<Longrightarrow> frob2 (diag3 a b c) \<le> frob2 (mmul (diag3 a b c) (mreal (shear k1 i j)))"
  by (auto dest!: k1_cases simp: shear_def mset_def diag3_def mmul_def)

lemma reduce_diag_frob:
  assumes "0 \<le> thr"
  shows "reduceLatticeVectors thr frob (diag3 a b c) = Some (diag3 a b c, diag3 1 1 1, diag3 1 1 1)"
proof (rule reduce_of_fix)
  show "\<forall>p\<in>set proposals. \<not> accepts thr frob (diag3 a b c) p"
  proof
    fix p assume p: "p \<in> set proposals"
    obtain k1 i j where e: "p = (k1, i, j)" by (cases p)
    with p have "k1 < 3" by (auto dest: proposals_k1)
    from frob_no_accept[OF frob2_diag_shear[OF this] assms]
    show "\<not> accepts thr frob (diag3 a b c) p" by (simp add: accepts_def e)
  qed
qed

lemma closure_mesh2:
  "kmesh_closure plook_exact [Vector3 0 0 0, Vector3 (1 / 2) 0 0] [diag3 1 1 1] [1] =
     ([Vector3 0 0 0, Vector3 (- 1 / 2) 0 0],
      [\<lparr>iReduced = 0, iSym = 0, invert = 1, offset = Vector3 0 0 0\<rparr>,
       \<lparr>iReduced = 1, iSym = 0, invert = 1, offset = Vector3 (- 1) 0 0\<rparr>])"
  by (simp add: kmesh_closure_def closure_order_def closure_step_def kmesh_image_def plook_exact_def
        diag3_def mvmul_def)

lemma minv_diag: "a \<noteq> 0 \<Longrightarrow> b \<noteq> 0 \<Longrightarrow> c \<noteq> 0 \<Longrightarrow> minv (diag3 a b c) = diag3 (1 / a) (1 / b) (1 / c)"
  by (simp add: minv_def diag3_def mscale_def)

lemma pivot_diag: "pivot (Matrix3 (- 2) 0 0  0 (- 1) 0  0 0 (- 1)) = Matrix3 (- 2) 0 0  0 (- 1) 0  0 0 (- 1)"
proof -
  have "[0..<6] = [0, Suc 0, 2, 3, 4, 5]" by (simp add: upt_rec)
  then have "pBest_of (Matrix3 (- 2) 0 0  0 (- 1) 0  0 0 (- 1)) = 0"
    by (simp add: pBest_of_def score_def permutation_def length_squared_def)
  then show ?thesis by (simp add: pivot_def permute_columns_def permutation_def)
qed

text \<open>
  C7: for a positive threshold, a non-degenerate unit lattice and a non-degenerate basis of
  the closed mesh, the construction ends in one of two ways. It dies exactly when a point
  of the closed mesh, relative to the first point and in the reduced reciprocal basis, has a
  rounding error above \<open>thr\<close>, or the absolute determinant of the inverse reciprocal basis
  differs from the number of mesh points by more than \<open>thr\<close> times that number, or an entry
  of the real-space supercell matrix differs from its nearest integer by more than \<open>thr\<close>.
  Otherwise it returns the supercell with the rounded, pivoted and orientation-fixed integer
  matrix. There is no third outcome: both lattice reductions return.
\<close>

theorem Supercell_fatal_iff:
  assumes "0 < thr" and "norm_like nrm2" and "det R \<noteq> 0"
    and "kmesh_closure plook_find kmeshReduced syms invertList = (km, kmt)"
    and "det (kBasis_of thr km) \<noteq> 0"
  shows "\<exists>kBasis T Ti Rs T' Ti'.
           reduceLatticeVectors thr nrm2 (kBasis_of thr km) = Some (kBasis, T, Ti) \<and>
           reduceLatticeVectors thr nrm2 (mmul R (mtranspose (minv kBasis))) = Some (Rs, T', Ti') \<and>
           (if (\<exists>kpoint\<in>set km. thr < round_err (mvmul (minv kBasis) (vsub kpoint (hd km)))) \<or>
               real (length km) * thr < \<bar>\<bar>det (minv kBasis)\<bar> - real (length km)\<bar> \<or>
               (\<exists>x\<in>set (entries (mmul (minv R) Rs)). thr < \<bar>x - real_of_int (c_round x)\<bar>)
            then \<exists>e. Supercell thr nrm2 round_err plook_find R kmeshReduced syms invertList = Some (Inl e)
            else Supercell thr nrm2 round_err plook_find R kmeshReduced syms invertList
                 = Some (Inr \<lparr>sc_kmesh = km, sc_kmeshTransform = kmt,
                      sc_super = fix_handedness (pivot (map_matrix3 c_round (mmul (minv R) Rs))),
                      sc_Rsuper = mmul R (mreal (fix_handedness (pivot (map_matrix3 c_round (mmul (minv R) Rs)))))\<rparr>))"
proof -
  from reduce_returns[OF assms(1,2)] obtain kBasis T Ti
    where r1: "reduceLatticeVectors thr nrm2 (kBasis_of thr km) = Some (kBasis, T, Ti)" by blast
  from reduce_returns[OF assms(1,2)] obtain Rs T' Ti'
    where r2: "reduceLatticeVectors thr nrm2 (mmul R (mtranspose (minv kBasis))) = Some (Rs, T', Ti')"
    by blast
  have "if (\<exists>kpoint\<in>set km. thr < round_err (mvmul (minv kBasis) (vsub kpoint (hd km)))) \<or>
               real (length km) * thr < \<bar>\<bar>det (minv kBasis)\<bar> - real (length km)\<bar> \<or>
               (\<exists>x\<in>set (entries (mmul (minv R) Rs)). thr < \<bar>x - real_of_int (c_round x)\<bar>)
            then \<exists>e. Supercell thr nrm2 round_err plook_find R kmeshReduced syms invertList = Some (Inl e)
            else Supercell thr nrm2 round_err plook_find R kmeshReduced syms invertList
                 = Some (Inr \<lparr>sc_kmesh = km, sc_kmeshTransform = kmt,
                      sc_super = fix_handedness (pivot (map_matrix3 c_round (mmul (minv R) Rs))),
                      sc_Rsuper = mmul R (mreal (fix_handedness (pivot (map_matrix3 c_round (mmul (minv R) Rs)))))\<rparr>)"
    by (simp add: Supercell_def supercell_matrix_def assms(4) r1 r2 Let_def list_ex_iff
          list_ex_rounded[unfolded list_ex_iff])
  with r1 r2 show ?thesis by blast
qed


theorem Supercell_fatal_iff_witness:
  "0 < (1 / 10000 :: real) \<and> norm_like frob \<and> det (diag3 1 1 1 :: real matrix3) \<noteq> 0 \<and>
   kmesh_closure plook_exact [Vector3 0 0 0, Vector3 (1 / 2) 0 0] [diag3 1 1 1] [1] =
     ([Vector3 0 0 0, Vector3 (- 1 / 2) 0 0],
      [\<lparr>iReduced = 0, iSym = 0, invert = 1, offset = Vector3 0 0 0\<rparr>,
       \<lparr>iReduced = 1, iSym = 0, invert = 1, offset = Vector3 (- 1) 0 0\<rparr>]) \<and>
   det (kBasis_of (1 / 10000) [Vector3 0 0 0, Vector3 (- 1 / 2) 0 0]) \<noteq> 0 \<and>
   Supercell (1 / 10000) frob round_err_euclid plook_exact (diag3 1 1 1)
       [Vector3 0 0 0, Vector3 (1 / 2) 0 0] [diag3 1 1 1] [1]
     = Some (Inr \<lparr>sc_kmesh = [Vector3 0 0 0, Vector3 (- 1 / 2) 0 0],
          sc_kmeshTransform =
            [\<lparr>iReduced = 0, iSym = 0, invert = 1, offset = Vector3 0 0 0\<rparr>,
             \<lparr>iReduced = 1, iSym = 0, invert = 1, offset = Vector3 (- 1) 0 0\<rparr>],
          sc_super = diag3 2 1 1, sc_Rsuper = diag3 2 1 1\<rparr>)"
proof -
  let ?km = "[Vector3 0 0 0, Vector3 (- 1 / 2) 0 0] :: real vector3 list"
  have p: "0 < (1 / 10000 :: real)" by simp
  have d: "det (diag3 1 1 1 :: real matrix3) \<noteq> 0" by (simp add: diag3_def)
  have kb: "kBasis_of (1 / 10000) ?km = diag3 (- 1 / 2) (- 1) (- 1)"
    using kBasis_mesh2 by (simp add: diag3_def)
  have dk: "det (kBasis_of (1 / 10000) ?km) \<noteq> 0" unfolding kb by (simp add: diag3_def)
  have r1: "reduceLatticeVectors (1 / 10000) frob (diag3 (- 1 / 2) (- 1) (- 1))
              = Some (diag3 (- 1 / 2) (- 1) (- 1), diag3 1 1 1, diag3 1 1 1)"
    by (rule reduce_diag_frob) simp
  have ki: "minv (diag3 (- 1 / 2) (- 1) (- 1)) = diag3 (- 2) (- 1) (- 1)"
    by (simp add: minv_diag)
  have rk: "mmul (diag3 1 1 1) (mtranspose (diag3 (- 2) (- 1) (- 1))) = diag3 (- 2) (- 1) (- 1 :: real)"
    by (simp add: mmul_eye_left) (simp add: diag3_def)
  have r2: "reduceLatticeVectors (1 / 10000) frob (diag3 (- 2) (- 1) (- 1))
              = Some (diag3 (- 2) (- 1) (- 1), diag3 1 1 1, diag3 1 1 1)"
    by (rule reduce_diag_frob) simp
  from Supercell_fatal_iff[OF p frob_norm_like d closure_mesh2 dk, of round_err_euclid]
  obtain kBasis T Ti Rs T' Ti' where
    a: "reduceLatticeVectors (1 / 10000) frob (kBasis_of (1 / 10000) ?km) = Some (kBasis, T, Ti)"
    and b: "reduceLatticeVectors (1 / 10000) frob (mmul (diag3 1 1 1) (mtranspose (minv kBasis))) = Some (Rs, T', Ti')"
    and c: "if (\<exists>kpoint\<in>set ?km. 1 / 10000 < round_err_euclid (mvmul (minv kBasis) (vsub kpoint (hd ?km)))) \<or>
               real (length ?km) * (1 / 10000) < \<bar>\<bar>det (minv kBasis)\<bar> - real (length ?km)\<bar> \<or>
               (\<exists>x\<in>set (entries (mmul (minv (diag3 1 1 1)) Rs)). 1 / 10000 < \<bar>x - real_of_int (c_round x)\<bar>)
            then \<exists>e. Supercell (1 / 10000) frob round_err_euclid plook_exact (diag3 1 1 1)
                        [Vector3 0 0 0, Vector3 (1 / 2) 0 0] [diag3 1 1 1] [1] = Some (Inl e)
            else Supercell (1 / 10000) frob round_err_euclid plook_exact (diag3 1 1 1)
                        [Vector3 0 0 0, Vector3 (1 / 2) 0 0] [diag3 1 1 1] [1]
                 = Some (Inr \<lparr>sc_kmesh = ?km, sc_kmeshTransform =
            [\<lparr>iReduced = 0, iSym = 0, invert = 1, offset = Vector3 0 0 0\<rparr>,
             \<lparr>iReduced = 1, iSym = 0, invert = 1, offset = Vector3 (- 1) 0 0\<rparr>],
                      sc_super = fix_handedness (pivot (map_matrix3 c_round (mmul (minv (diag3 1 1 1)) Rs))),
                      sc_Rsuper = mmul (diag3 1 1 1) (mreal (fix_handedness (pivot (map_matrix3 c_round (mmul (minv (diag3 1 1 1)) Rs)))))\<rparr>)"
    by blast
  from a have kB: "kBasis = diag3 (- 1 / 2) (- 1) (- 1)" unfolding kb r1 by simp
  from b have Rs: "Rs = diag3 (- 2) (- 1) (- 1)" unfolding kB ki rk r2 by simp
  have m1: "minv (diag3 1 1 1) = (diag3 1 1 1 :: real matrix3)" by (simp add: minv_diag)
  have sr: "map_matrix3 c_round (diag3 (- 2) (- 1) (- 1)) = Matrix3 (- 2) 0 0  0 (- 1) 0  0 0 (- 1)"
    by (simp add: diag3_def c_round_def)
  have fh: "fix_handedness (Matrix3 (- 2) 0 0  0 (- 1) 0  0 0 (- 1)) = diag3 2 1 1"
    by (simp add: fix_handedness_def mscale_def diag3_def)
  have c1: "\<not> (\<exists>kpoint\<in>set ?km. 1 / 10000 < round_err_euclid (mvmul (diag3 (- 2) (- 1) (- 1)) (vsub kpoint (hd ?km))))"
    by (simp add: round_err_euclid_def mvmul_def diag3_def c_round_def vlength_def length_squared_def)
  have c2: "\<not> real (length ?km) * (1 / 10000) < \<bar>\<bar>det (diag3 (- 2) (- 1) (- 1) :: real matrix3)\<bar> - real (length ?km)\<bar>"
    by (simp add: diag3_def)
  have c3: "\<not> (\<exists>x\<in>set (entries (diag3 (- 2) (- 1) (- 1) :: real matrix3)). 1 / 10000 < \<bar>x - real_of_int (c_round x)\<bar>)"
    by (simp add: diag3_def c_round_def)
  from c have "Supercell (1 / 10000) frob round_err_euclid plook_exact (diag3 1 1 1)
                        [Vector3 0 0 0, Vector3 (1 / 2) 0 0] [diag3 1 1 1] [1]
                 = Some (Inr \<lparr>sc_kmesh = ?km, sc_kmeshTransform =
            [\<lparr>iReduced = 0, iSym = 0, invert = 1, offset = Vector3 0 0 0\<rparr>,
             \<lparr>iReduced = 1, iSym = 0, invert = 1, offset = Vector3 (- 1) 0 0\<rparr>],
                      sc_super = diag3 2 1 1, sc_Rsuper = diag3 2 1 1\<rparr>)"
    unfolding kB Rs ki m1 mmul_eye_left sr pivot_diag fh
    using c1 c2 c3 by (simp add: mreal_eye mmul_eye_left) (simp add: diag3_def mmul_def)
  with p frob_norm_like d closure_mesh2 dk show ?thesis by blast
qed


subsection \<open>The pivoting of the supercell matrix\<close>

lemma length_squared_nonneg: "0 \<le> length_squared (v :: int vector3)"
  by (cases v) (simp add: length_squared_def)

lemma score_nonneg: "0 \<le> score super p"
  by (simp add: score_def Let_def length_squared_nonneg)

lemma foldl_best_so_far:
  "best_so_far f S st \<Longrightarrow>
     best_so_far f (S \<union> set ps)
       (foldl (\<lambda>(maxScore, pBest) p. if f p > maxScore then (f p, p) else (maxScore, pBest)) st ps)"
proof (induction ps arbitrary: S st)
  case (Cons p ps)
  obtain m b where st: "st = (m, b)" by (cases st)
  let ?st' = "if f p > m then (f p, p) else (m, b)"
  have "best_so_far f (insert p S) ?st'"
    using Cons.prems by (auto simp: best_so_far_def st)
  from Cons.IH[OF this] show ?case by (simp add: st)
qed simp

lemma pBest_of_max:
  "pBest_of super < 6 \<and> (\<forall>p<6. score super p \<le> score super (pBest_of super))"
proof -
  define r where "r = foldl (\<lambda>(maxScore, pBest) p.
                   if score super p > maxScore then (score super p, p) else (maxScore, pBest))
            (0, 0) [0..<6]"
  have "best_so_far (score super) {} (0, 0)" by (simp add: best_so_far_def)
  from foldl_best_so_far[OF this, of "[0..<6]"]
  have b: "best_so_far (score super) {0..<6} r" by (simp add: r_def)
  have s: "pBest_of super = snd r" by (simp add: pBest_of_def r_def)
  from b have all: "\<forall>p\<in>{0..<6}. score super p \<le> fst r"
    and alt: "fst r = score super (snd r) \<and> snd r \<in> {0..<6} \<or> fst r = 0 \<and> snd r = 0"
    by (simp_all add: best_so_far_def)
  from alt have "snd r < 6" by auto
  moreover have "score super p \<le> score super (snd r)" if "p < 6" for p
  proof -
    from all that have 1: "score super p \<le> fst r" by simp
    from alt show ?thesis
    proof
      assume "fst r = score super (snd r) \<and> snd r \<in> {0..<6}" with 1 show ?thesis by simp
    next
      assume "fst r = 0 \<and> snd r = 0"
      with 1 score_nonneg[of super 0] show ?thesis by simp
    qed
  qed
  ultimately show ?thesis by (simp add: s)
qed

lemma u6: "[0..<6] = [0, 1, 2, 3, 4, 5]" by (simp add: upt_rec)

lemma scores_skew:
  "score super_skew 0 = 0" "score super_skew (Suc 0) = 0" "score super_skew 2 = 0"
  "score super_skew 3 = 0" "score super_skew 4 = 1 / 10" "score super_skew 5 = 0"
  by (simp_all add: score_def super_skew_def permutation_def length_squared_def)

lemma pBest_skew: "pBest_of super_skew = 4"
  by (simp add: pBest_of_def u6 scores_skew)

text \<open>
  C1 as stated fails: for the unimodular matrix \<open>super_skew\<close> the permutation selected is the
  one of index 4, whose sum of ratios is 17/10, below the 9/5 of the identity permutation.
\<close>

theorem pivot_sum_counterexample:
  "pBest_of super_skew = 4 \<and> score_spec super_skew (pBest_of super_skew) = 17 / 10 \<and>
   score_spec super_skew 0 = 9 / 5 \<and>
   score_spec super_skew (pBest_of super_skew) < score_spec super_skew 0"
  by (simp add: pBest_skew) (simp add: score_spec_def super_skew_def permutation_def length_squared_def)

text \<open>
  C1, as amended: the permutation selected among the six maximises the product over the
  columns of (diagonal entry squared) / (column squared length), and it is the permutation applied
  to the stored matrix. (For a non-singular matrix no column is zero, so that no division
  by zero occurs in the score.)
\<close>

theorem pivot_maximises_product:
  assumes "det super \<noteq> 0"
  shows "pBest_of super < 6 \<and> pivot super = permute_columns super (pBest_of super) \<and>
         (\<forall>p<6. score super p \<le> score super (pBest_of super))"
  using pBest_of_max[of super] by (simp add: pivot_def)

theorem pivot_maximises_product_witness:
  "det super_skew \<noteq> 0 \<and> pBest_of super_skew = 4 \<and>
   pivot super_skew = Matrix3 (- 1) (- 2) 0  0 (- 1) 0  (- 1) 0 (- 1) \<and>
   score super_skew 0 \<le> score super_skew (pBest_of super_skew)"
proof -
  have d: "det super_skew \<noteq> 0" by (simp add: super_skew_def)
  from pivot_maximises_product[OF d]
  have "pivot super_skew = permute_columns super_skew (pBest_of super_skew)"
    and "score super_skew 0 \<le> score super_skew (pBest_of super_skew)" by simp_all
  moreover have "permute_columns super_skew 4 = Matrix3 (- 1) (- 2) 0  0 (- 1) 0  (- 1) 0 (- 1)"
    by (simp add: permute_columns_def permutation_def super_skew_def)
  ultimately show ?thesis using d by (simp add: pBest_skew)
qed


subsection \<open>The cell map\<close>

lemma adjugate_mmul: "mmul (adjugate a) a = diag3 (det a) (det a) (det (a::'a::comm_ring_1 matrix3))"
  by (cases a) (simp add: mmul_def diag3_def algebra_simps)

lemma mscale_mmul: "mmul (mscale a s) b = mscale (mmul a b) (s::'a::comm_ring_1)"
  by (cases a; cases b) (simp add: mmul_def mscale_def algebra_simps)

lemma minv_mmul: "det a \<noteq> 0 \<Longrightarrow> mmul (minv a) a = diag3 1 1 1"
  by (simp add: minv_def mscale_mmul adjugate_mmul) (simp add: mscale_def diag3_def)

lemma det_eye: "det (diag3 1 1 1 :: real matrix3) = 1"
  by (simp add: diag3_def)

lemma det_minv: "det a \<noteq> 0 \<Longrightarrow> det (minv a) = 1 / det a"
proof -
  assume a: "det a \<noteq> 0"
  from minv_mmul[OF a] have "det (minv a) * det a = 1"
    by (metis det_mmul det_eye)
  with a show ?thesis by (simp add: field_simps)
qed

lemma weightSum_foldl: "foldl (\<lambda>weightSum entry. weightSum + snd entry) s m = s + sum_list (map snd m)"
  by (induction m arbitrary: s) (simp_all add: algebra_simps)

lemma weightSum_of_eq: "weightSum_of m = sum_list (map snd m)"
  by (simp add: weightSum_of_def weightSum_foldl)

lemma c_round_of_int: "c_round (real_of_int n) = n"
  by (simp add: c_round_def)

lemma getCellMap_cases:
  "getCellMap thr round_err ws_of R Rsup = Inl AssertionFailed \<or>
   (\<exists>m. getCellMap thr round_err ws_of R Rsup = Inr m \<and>
        c_round \<bar>1 / det (mmul (minv Rsup) R)\<bar> \<noteq> 0 \<and>
        \<bar>weightSum_of m / real_of_int (c_round \<bar>1 / det (mmul (minv Rsup) R)\<bar>) - 1\<bar> < thr)"
  by (simp add: getCellMap_def Let_def split: prod.splits)

lemma nCells_integer_multiple:
  assumes "det R \<noteq> 0" and "Rsup = mmul R (mreal S)" and "det S \<noteq> 0"
  shows "c_round \<bar>1 / det (mmul (minv Rsup) R)\<bar> = \<bar>det S\<bar>"
proof -
  have d: "det Rsup = det R * real_of_int (det S)" by (simp add: assms(2) det_mmul det_mreal)
  with assms have n: "det Rsup \<noteq> 0" by simp
  have "1 / det (mmul (minv Rsup) R) = real_of_int (det S)"
    using assms(1) n by (simp add: det_mmul det_minv d)
  then have "\<bar>1 / det (mmul (minv Rsup) R)\<bar> = real_of_int \<bar>det S\<bar>" by simp
  then show ?thesis by (simp only: c_round_of_int)
qed

lemma ceiling_sqrt3: "\<lceil>sqrt 3 / 2\<rceil> = 1"
proof -
  have "sqrt 3 \<le> 2" by (rule real_le_lsqrt) simp_all
  moreover have "0 < sqrt 3" by simp
  ultimately show ?thesis by (intro ceiling_unique) simp_all
qed

lemma upto_m2: "[- 2 .. 2] = [- 2, - 1, 0, 1, 2 :: int]"
  by (simp add: upto_rec1)

lemma iCells_2: "iCells (Vector3 2 2 2) = [Vector3 a b c. a \<leftarrow> [- 2, - 1, 0, 1, 2], b \<leftarrow> [- 2, - 1, 0, 1, 2], c \<leftarrow> [- 2, - 1, 0, 1, 2]]"
  by (simp add: iCells_def upto_rec1)

lemma classify_mirror:
  "foldl (classify (WignerSeitz_orthorhombic (diag3 (- 1) 1 1)) (diag3 (- 1) 1 1)) ([], []) (iCells (Vector3 2 2 2))
     = ([(Vector3 0 0 0, 1)], [])"
  unfolding iCells_2
  by (simp add: classify_def WignerSeitz_orthorhombic_def mget_def diag3_def mvmul_def)

lemma getCellMap_mirror:
  "getCellMap (1 / 10000) round_err_euclid WignerSeitz_orthorhombic (diag3 1 1 1) (diag3 (- 1) 1 1)
     = Inr [(Vector3 0 0 0, 1)]"
proof -
  have m: "minv (diag3 (- 1) 1 1) = diag3 (- 1) 1 (1::real)" "minv (diag3 1 1 1) = diag3 1 1 (1::real)"
    by (simp_all add: minv_diag)
  have c: "circumRadius (WignerSeitz_orthorhombic (diag3 (- 1) 1 1)) = sqrt 3 / 2"
    by (simp add: WignerSeitz_orthorhombic_def mget_def diag3_def)
  have r: "vlength (row (diag3 1 1 1) 0) = 1" "vlength (row (diag3 1 1 1) 1) = 1" "vlength (row (diag3 1 1 1) 2) = 1"
    by (simp_all add: vlength_def diag3_def length_squared_def)
  have i: "1 + \<lceil>sqrt 3 / 2 * 1\<rceil> = 2" using ceiling_sqrt3 by simp
  have s: "mmul (diag3 (- 1) 1 1) (diag3 1 1 1) = diag3 (- 1) 1 (1::real)"
    by (simp add: mmul_eye_right)
  show ?thesis
    unfolding getCellMap_def Let_def m c r i s classify_mirror
    by (simp add: weightSum_of_def c_round_def diag3_def)
qed

lemma getCellMap_Inr:
  assumes "getCellMap thr round_err ws_of R Rsup = Inr m"
  shows "m = surface_weights thr round_err (superInv_of R Rsup) (surface_cells ws_of R Rsup)
               (fst (classified ws_of R Rsup))"
  using assms
  by (simp add: getCellMap_def Let_def surface_cells_def classified_def superInv_of_def iCellMax_of_def
        split: prod.splits if_splits)

lemma distinct_concat_map:
  "distinct xs \<Longrightarrow> (\<forall>x\<in>set xs. distinct (f x)) \<Longrightarrow>
   (\<forall>x\<in>set xs. \<forall>y\<in>set xs. x \<noteq> y \<longrightarrow> set (f x) \<inter> set (f y) = {}) \<Longrightarrow>
   distinct (concat (map f xs))"
  by (induction xs) auto

lemma distinct_iCells: "distinct (iCells iCellMax)"
  unfolding iCells_def
  by (intro distinct_concat_map ballI impI) (auto simp: distinct_map inj_on_def)

lemma classify_foldl:
  "foldl (classify ws sI) (m, s) cs =
     (foldl (\<lambda>m c. AList.update c 1 m) m
        (filter (\<lambda>c. \<not> onBoundary ws (mvmul sI (vreal c)) \<and> boundaryDistance ws (mvmul sI (vreal c)) > 0) cs),
      s @ filter (\<lambda>c. onBoundary ws (mvmul sI (vreal c))) cs)"
  by (induction cs arbitrary: m s) (simp_all add: classify_def Let_def)

lemma foldl_update_map_of:
  "map_of (foldl (\<lambda>m k. AList.update k w m) m ks) k = (if k \<in> set ks then Some w else map_of m k)"
  by (induction ks arbitrary: m) (simp_all add: update_conv')

lemma foldl_update_keys:
  "fst ` set (foldl (\<lambda>m k. AList.update k w m) m ks) = set ks \<union> fst ` set m"
  by (induction ks arbitrary: m) (auto simp: dom_update)

lemma snd_update: "snd ` set (AList.update k v al) \<subseteq> insert v (snd ` set al)"
  by (induction al) auto

lemma foldl_update_values:
  "snd ` set (foldl (\<lambda>m k. AList.update k w m) m ks) \<subseteq> insert w (snd ` set m)"
proof (induction ks arbitrary: m)
  case (Cons k ks)
  from Cons.IH[of "AList.update k w m"] snd_update[of k w m] show ?case by auto
qed auto

lemma surface_cells_eq:
  "surface_cells ws_of R Rsup =
     filter (\<lambda>c. onBoundary (ws_of Rsup) (mvmul (superInv_of R Rsup) (vreal c)))
       (iCells (iCellMax_of (ws_of Rsup) R))"
  by (simp add: surface_cells_def classified_def classify_foldl)

lemma distinct_surface_cells: "distinct (surface_cells ws_of R Rsup)"
  by (simp add: surface_cells_eq distinct_iCells)

lemma interior_map:
  "map_of (fst (classified ws_of R Rsup)) c = (if c \<in> set (interior_cells ws_of R Rsup) then Some 1 else None)"
proof -
  have "c \<in> set (interior_cells ws_of R Rsup) \<longleftrightarrow> c \<in> fst ` set (fst (classified ws_of R Rsup))"
    by (simp add: interior_cells_def)
  then show ?thesis
    by (simp add: classified_def classify_foldl foldl_update_map_of foldl_update_keys)
qed

lemma interior_values: "snd ` set (fst (classified ws_of R Rsup)) \<subseteq> {1}"
  using foldl_update_values[of 1 "[]"] by (simp add: classified_def classify_foldl)

lemma interior_not_surface:
  "c \<in> set (interior_cells ws_of R Rsup) \<Longrightarrow> c \<notin> set (surface_cells ws_of R Rsup)"
  by (auto simp: interior_cells_def surface_cells_eq classified_def classify_foldl foldl_update_keys)

lemma surface_weights_other:
  "k \<notin> set cs \<Longrightarrow> map_of (surface_weights thr round_err sI cs m) k = map_of m k"
proof (induction thr round_err sI cs m rule: surface_weights.induct)
  case (2 thr round_err sI c rest m)
  then show ?case by (simp add: Let_def foldl_update_map_of update_conv')
qed simp

lemma surface_weights_values:
  "snd ` set m \<subseteq> {0<..1} \<Longrightarrow> snd ` set (surface_weights thr round_err sI cs m) \<subseteq> {0<..1}"
proof (induction thr round_err sI cs m rule: surface_weights.induct)
  case (2 thr round_err sI c rest m)
  let ?eq = "filter (equivalent thr round_err sI c) rest"
  let ?w = "1 / (1 + real (length ?eq))"
  have w: "?w \<in> {0<..1}" by (simp add: field_simps)
  have "snd ` set (foldl (\<lambda>m iCell. AList.update iCell ?w m) (AList.update c ?w m) ?eq) \<subseteq> {0<..1}"
  proof -
    have "snd ` set (AList.update c ?w m) \<subseteq> {0<..1}"
      using snd_update[of c ?w m] "2.prems" w by (meson insert_subset subset_trans)
    with foldl_update_values[of ?w "AList.update c ?w m" ?eq] w show ?thesis
      by (meson insert_subset subset_trans)
  qed
  from "2.IH"[OF refl refl this] show ?case by (simp add: Let_def)
qed simp

lemma equiv_on_subset: "equiv_on S E \<Longrightarrow> T \<subseteq> S \<Longrightarrow> equiv_on T E"
  unfolding equiv_on_def by blast

lemma surface_weights_class:
  "distinct cs \<Longrightarrow> equiv_on (set cs) (equivalent thr round_err sI) \<Longrightarrow> k \<in> set cs \<Longrightarrow>
     map_of (surface_weights thr round_err sI cs m) k
       = Some (1 / real (length (filter (equivalent thr round_err sI k) cs)))"
proof (induction thr round_err sI cs m rule: surface_weights.induct)
  case (2 thr round_err sI c rest m)
  let ?E = "equivalent thr round_err sI"
  let ?S = "insert c (set rest)"
  let ?eq = "filter (?E c) rest"
  let ?rest' = "filter (\<lambda>c2. \<not> ?E c c2) rest"
  let ?w = "1 / (1 + real (length ?eq))"
  let ?m' = "foldl (\<lambda>m iCell. AList.update iCell ?w m) (AList.update c ?w m) ?eq"
  have sw: "surface_weights thr round_err sI (c # rest) m = surface_weights thr round_err sI ?rest' ?m'"
    by (simp add: Let_def)
  from "2.prems" have eq: "equiv_on ?S ?E" by simp
  have rfl: "?E c c" using eq unfolding equiv_on_def by blast
  have sym: "?E y x" if "?E x y" "x \<in> ?S" "y \<in> ?S" for x y
    using eq that unfolding equiv_on_def by blast
  have trans: "?E x z" if "?E x y" "?E y z" "x \<in> ?S" "y \<in> ?S" "z \<in> ?S" for x y z
    using eq that unfolding equiv_on_def by blast
  have kS: "k \<in> ?S" using "2.prems"(3) by simp
  have cS: "c \<in> ?S" by simp
  show ?case
  proof (cases "k = c \<or> ?E c k")
    case True
    then have ck: "?E c k" using rfl by auto
    from True have "k \<notin> set ?rest'" using "2.prems"(1) by auto
    then have "map_of (surface_weights thr round_err sI ?rest' ?m') k = map_of ?m' k"
      by (rule surface_weights_other)
    also have "\<dots> = Some ?w"
      using True "2.prems"(3) by (auto simp: foldl_update_map_of update_conv')
    finally have 1: "map_of (surface_weights thr round_err sI (c # rest) m) k = Some ?w"
      by (simp only: sw)
    have "?E k y \<longleftrightarrow> ?E c y" if "y \<in> ?S" for y
    proof
      assume "?E k y" from trans[OF ck this cS kS that] show "?E c y" .
    next
      assume "?E c y" from trans[OF sym[OF ck cS kS] this kS cS that] show "?E k y" .
    qed
    then have "filter (?E k) (c # rest) = filter (?E c) (c # rest)"
      by (intro filter_cong) auto
    then have "length (filter (?E k) (c # rest)) = 1 + length ?eq"
      using rfl by simp
    with 1 show ?thesis by simp
  next
    case False
    then have nck: "\<not> ?E c k" by simp
    from False "2.prems"(3) have k: "k \<in> set ?rest'" by auto
    have d: "distinct ?rest'" using "2.prems"(1) by simp
    have e: "equiv_on (set ?rest') ?E" by (rule equiv_on_subset[OF eq]) auto
    from "2.IH"[OF refl refl d e k]
    have 1: "map_of (surface_weights thr round_err sI (c # rest) m) k
               = Some (1 / real (length (filter (?E k) ?rest')))"
      by (simp only: sw)
    have nkc: "\<not> ?E k c"
    proof
      assume "?E k c" from sym[OF this kS cS] nck show False by simp
    qed
    have "\<not> ?E c y" if "?E k y" "y \<in> set rest" for y
    proof
      assume "?E c y"
      from that have yS: "y \<in> ?S" by simp
      from trans[OF \<open>?E c y\<close> sym[OF that(1) kS yS] cS yS kS] nck show False by simp
    qed
    then have "filter (?E k) ?rest' = filter (?E k) rest"
      by (auto intro!: filter_cong)
    with nkc have "filter (?E k) (c # rest) = filter (?E k) ?rest'" by simp
    with 1 show ?thesis by simp
  qed
qed simp

lemma class_eq:
  assumes "equiv_on (set cs) E" and "c \<in> set cs" and "c2 \<in> set cs" and "E c c2"
  shows "filter (E c) cs = filter (E c2) cs"
proof (rule filter_cong[OF refl])
  fix y assume y: "y \<in> set cs"
  from assms y show "E c y = E c2 y" unfolding equiv_on_def by blast
qed

lemma ceiling_sqrt6: "\<lceil>sqrt 6 / 2\<rceil> = 2"
proof -
  have "sqrt 6 \<le> 4" by (rule real_le_lsqrt) simp_all
  moreover have "2 < sqrt 6" by (rule real_less_rsqrt) simp
  ultimately show ?thesis by (intro ceiling_unique) simp_all
qed

lemma iCells_3:
  "iCells (Vector3 3 3 3) = [Vector3 a b c. a \<leftarrow> [- 3, - 2, - 1, 0, 1, 2, 3],
      b \<leftarrow> [- 3, - 2, - 1, 0, 1, 2, 3], c \<leftarrow> [- 3, - 2, - 1, 0, 1, 2, 3]]"
  by (simp add: iCells_def upto_rec1)

lemma iCellMax_double: "iCellMax_of (WignerSeitz_orthorhombic (diag3 2 1 1)) (diag3 1 1 1) = Vector3 3 3 3"
proof -
  have c: "circumRadius (WignerSeitz_orthorhombic (diag3 2 1 1)) = sqrt 6 / 2"
    by (simp add: WignerSeitz_orthorhombic_def mget_def diag3_def)
  have m: "minv (diag3 1 1 1) = diag3 1 1 (1::real)" by (simp add: minv_diag)
  have r: "vlength (row (diag3 1 1 1) 0) = 1" "vlength (row (diag3 1 1 1) 1) = 1"
    "vlength (row (diag3 1 1 1) 2) = 1"
    by (simp_all add: vlength_def diag3_def length_squared_def)
  show ?thesis unfolding iCellMax_of_def c m r using ceiling_sqrt6 by simp
qed

lemma superInv_double: "superInv_of (diag3 1 1 1) (diag3 2 1 1) = diag3 (1 / 2) 1 1"
  by (simp add: superInv_of_def minv_diag mmul_eye_right)

lemma classified_double:
  "classified WignerSeitz_orthorhombic (diag3 1 1 1) (diag3 2 1 1)
     = ([(Vector3 0 0 0, 1)], [Vector3 (- 1) 0 0, Vector3 1 0 0])"
  unfolding classified_def iCellMax_double superInv_double iCells_3
  by (simp add: classify_def WignerSeitz_orthorhombic_def mget_def diag3_def mvmul_def)

lemma surface_double:
  "surface_cells WignerSeitz_orthorhombic (diag3 1 1 1) (diag3 2 1 1) = [Vector3 (- 1) 0 0, Vector3 1 0 0]"
  by (simp add: surface_cells_def classified_double)

lemma equivalent_double:
  "equivalent (1 / 10000) round_err_euclid (diag3 (1 / 2) 1 1) (Vector3 a 0 0) (Vector3 b 0 0)
     \<longleftrightarrow> vlength (Vector3 ((real_of_int b - real_of_int a) / 2 - real_of_int (c_round ((real_of_int b - real_of_int a) / 2))) 0 0) < 1 / 10000"
  by (simp add: equivalent_def round_err_euclid_def mvmul_def diag3_def c_round_def)

lemma getCellMap_alt:
  "getCellMap thr round_err ws_of R Rsup =
     (let nCells = c_round \<bar>1 / det (superInv_of R Rsup)\<bar>;
          iCellMap = surface_weights thr round_err (superInv_of R Rsup) (surface_cells ws_of R Rsup)
                       (fst (classified ws_of R Rsup))
      in if nCells \<noteq> 0 \<and> \<bar>weightSum_of iCellMap / real_of_int nCells - 1\<bar> < thr
         then Inr iCellMap else Inl AssertionFailed)"
  by (simp add: getCellMap_def Let_def surface_cells_def classified_def superInv_of_def iCellMax_of_def
        split: prod.splits)

lemma equivalent_pm:
  "equivalent (1 / 10000) round_err_euclid (diag3 (1 / 2) 1 1) (Vector3 (- 1) 0 0) (Vector3 1 0 0)"
  "equivalent (1 / 10000) round_err_euclid (diag3 (1 / 2) 1 1) (Vector3 1 0 0) (Vector3 (- 1) 0 0)"
  "equivalent (1 / 10000) round_err_euclid (diag3 (1 / 2) 1 1) (Vector3 1 0 0) (Vector3 1 0 0)"
  "equivalent (1 / 10000) round_err_euclid (diag3 (1 / 2) 1 1) (Vector3 (- 1) 0 0) (Vector3 (- 1) 0 0)"
  by (simp_all add: equivalent_def round_err_euclid_def mvmul_def diag3_def c_round_def vlength_def
        length_squared_def)

lemma equiv_on_double:
  "equiv_on (set (surface_cells WignerSeitz_orthorhombic (diag3 1 1 1) (diag3 2 1 1)))
     (equivalent (1 / 10000) round_err_euclid (superInv_of (diag3 1 1 1) (diag3 2 1 1)))"
  unfolding surface_double superInv_double
  by (simp add: equiv_on_def equivalent_pm)

lemma getCellMap_double:
  "getCellMap (1 / 10000) round_err_euclid WignerSeitz_orthorhombic (diag3 1 1 1) (diag3 2 1 1)
     = Inr [(Vector3 0 0 0, 1), (Vector3 (- 1) 0 0, 1 / 2), (Vector3 1 0 0, 1 / 2)]"
  unfolding getCellMap_alt surface_double superInv_double classified_double
  by (simp add: equivalent_pm weightSum_of_def Let_def) (simp add: diag3_def c_round_def)

text \<open>
  For a supercell \<open>Rsup = R \<cdot> S\<close> with an integer matrix \<open>S\<close>, a tolerance of at most
  \<open>1 / |det S|\<close> and the Euclidean rounding error, two cells are equivalent exactly when their
  difference has integer supercell coordinates, so that the relation tested by the
  multiplicity loop is an equivalence relation.
\<close>

lemma mmul_adjugate: "mmul a (adjugate a) = diag3 (det a) (det a) (det (a::'a::comm_ring_1 matrix3))"
  by (cases a) (simp add: mmul_def diag3_def algebra_simps)

lemma mmul_mscale: "mmul a (mscale b s) = mscale (mmul a b) (s::'a::comm_ring_1)"
  by (cases a; cases b) (simp add: mmul_def mscale_def algebra_simps)

lemma mmul_minv: "det a \<noteq> 0 \<Longrightarrow> mmul a (minv a) = diag3 1 1 1"
  by (simp add: minv_def mmul_mscale mmul_adjugate) (simp add: mscale_def diag3_def)

lemma superInv_commensurate:
  assumes "det R \<noteq> 0" and "det S \<noteq> 0"
  shows "superInv_of R (mmul R (mreal S)) = minv (mreal S)"
proof -
  let ?S = "mreal S" and ?X = "superInv_of R (mmul R (mreal S))"
  have dS: "det ?S \<noteq> 0" using assms(2) by (simp add: det_mreal)
  have "det (mmul R ?S) \<noteq> 0" using assms(1) dS by (simp add: det_mmul)
  from minv_mmul[OF this] have l: "mmul ?X ?S = diag3 1 1 1"
    by (simp add: superInv_of_def mmul_assoc)
  have "?X = mmul ?X (mmul ?S (minv ?S))" by (simp add: mmul_minv[OF dS] mmul_eye_right)
  also have "\<dots> = mmul (mmul ?X ?S) (minv ?S)" by (simp only: mmul_assoc)
  also have "\<dots> = minv ?S" by (simp add: l mmul_eye_left)
  finally show ?thesis .
qed

lemma adjugate_mreal: "adjugate (mreal a) = mreal (adjugate a)"
  by (cases a) simp

lemma mvmul_mreal: "mvmul (mreal a) (vreal v) = vreal (mvmul a v)"
  by (cases a; cases v) (simp add: mvmul_def)

lemma mvmul_mscale: "mvmul (mscale a s) v = vscale (mvmul a v) (s::'a::comm_ring_1)"
  by (cases a; cases v) (simp add: mvmul_def mscale_def algebra_simps)

lemma minv_int_vector:
  "mvmul (minv (mreal S)) (vreal v) = vscale (vreal (mvmul (adjugate S) v)) (1 / real_of_int (det S))"
  by (simp add: minv_def mvmul_mscale adjugate_mreal mvmul_mreal det_mreal)

lemma c_round_Ints: "x = real_of_int (c_round x) \<longleftrightarrow> x \<in> \<int>"
proof
  assume "x = real_of_int (c_round x)" then show "x \<in> \<int>" by (metis Ints_of_int)
next
  assume "x \<in> \<int>"
  then obtain n where "x = real_of_int n" by (auto elim: Ints_cases)
  then show "x = real_of_int (c_round x)" by (simp add: c_round_of_int)
qed

lemma fraction_gap:
  assumes "d \<noteq> 0"
  shows "real_of_int n / real_of_int d \<in> \<int> \<or>
         1 / real_of_int \<bar>d\<bar> \<le> \<bar>real_of_int n / real_of_int d - real_of_int r\<bar>"
proof (cases "n = d * r")
  case True
  then show ?thesis using assms by simp
next
  case False
  then have "1 \<le> \<bar>n - d * r\<bar>" by simp
  then have "1 \<le> \<bar>real_of_int (n - d * r)\<bar>" by linarith
  then have "1 / \<bar>real_of_int d\<bar> \<le> \<bar>real_of_int (n - d * r)\<bar> / \<bar>real_of_int d\<bar>"
    using assms by (simp add: divide_right_mono)
  also have "\<dots> = \<bar>real_of_int n / real_of_int d - real_of_int r\<bar>"
    using assms by (simp add: field_simps flip: abs_divide)
  finally show ?thesis by simp
qed

lemma abs_le_vlength:
  "\<bar>x\<bar> \<le> vlength (Vector3 x y z)" "\<bar>y\<bar> \<le> vlength (Vector3 x y z)" "\<bar>z\<bar> \<le> vlength (Vector3 x y z)"
  by (simp_all add: vlength_def length_squared_def real_le_rsqrt power2_eq_square)

lemma round_err_small_iff:
  assumes "d \<noteq> 0" and "0 < thr" and "thr \<le> 1 / real_of_int \<bar>d\<bar>"
  shows "round_err_euclid (vscale (vreal n) (1 / real_of_int d)) < thr
         \<longleftrightarrow> in_Z3 (vscale (vreal n) (1 / real_of_int d))"
proof -
  obtain a b c where n: "n = Vector3 a b c" by (cases n)
  let ?x = "real_of_int a / real_of_int d" and ?y = "real_of_int b / real_of_int d"
    and ?z = "real_of_int c / real_of_int d"
  let ?w = "Vector3 (?x - real_of_int (c_round ?x)) (?y - real_of_int (c_round ?y))
              (?z - real_of_int (c_round ?z))"
  have u: "vscale (vreal n) (1 / real_of_int d) = Vector3 ?x ?y ?z" by (simp add: n)
  have e: "round_err_euclid (Vector3 ?x ?y ?z) = vlength ?w" by (simp add: round_err_euclid_def)
  show ?thesis unfolding u e
  proof
    assume "in_Z3 (Vector3 ?x ?y ?z)"
    then have "?x = real_of_int (c_round ?x)" "?y = real_of_int (c_round ?y)"
      "?z = real_of_int (c_round ?z)"
      by (simp_all add: c_round_Ints)
    then have "?w = Vector3 0 0 0" by simp
    then show "vlength ?w < thr" using assms(2) by (simp add: vlength_def length_squared_def)
  next
    assume l: "vlength ?w < thr"
    have "q \<in> \<int>" if "\<bar>q - real_of_int (c_round q)\<bar> \<le> vlength ?w"
      and "q \<in> \<int> \<or> 1 / real_of_int \<bar>d\<bar> \<le> \<bar>q - real_of_int (c_round q)\<bar>" for q
      using that l assms(3) by linarith
    from this[OF abs_le_vlength(1) fraction_gap[OF assms(1)]]
         this[OF abs_le_vlength(2) fraction_gap[OF assms(1)]]
         this[OF abs_le_vlength(3) fraction_gap[OF assms(1)]]
    show "in_Z3 (Vector3 ?x ?y ?z)" by simp
  qed
qed

lemma equivalent_commensurate:
  assumes "det R \<noteq> 0" and "det S \<noteq> 0" and "0 < thr" and "thr \<le> 1 / real_of_int \<bar>det S\<bar>"
  shows "equivalent thr round_err_euclid (superInv_of R (mmul R (mreal S))) a b
         \<longleftrightarrow> in_Z3 (mvmul (minv (mreal S)) (vreal (vsub b a)))"
  unfolding equivalent_def superInv_commensurate[OF assms(1,2)] minv_int_vector
  by (rule round_err_small_iff[OF assms(2,3,4)])

lemma in_Z3_vadd: "in_Z3 u \<Longrightarrow> in_Z3 w \<Longrightarrow> in_Z3 (vadd u w)"
  by (cases u; cases w) simp

lemma in_Z3_neg: "in_Z3 u \<Longrightarrow> in_Z3 (vscale u (- 1))"
  by (cases u) simp

lemma mvmul_vadd: "mvmul m (vadd u w) = vadd (mvmul m u) (mvmul m (w::'a::comm_ring_1 vector3))"
  by (cases m; cases u; cases w) (simp add: mvmul_def algebra_simps)

lemma mvmul_vscale: "mvmul m (vscale u s) = vscale (mvmul m u) (s::'a::comm_ring_1)"
  by (cases m; cases u) (simp add: mvmul_def algebra_simps)

lemma vsub_self: "vreal (vsub a a) = Vector3 0 0 0"
  by (cases a) simp

lemma mvmul_zero: "mvmul m (Vector3 0 0 0) = Vector3 0 0 (0::'a::comm_ring_1)"
  by (cases m) (simp add: mvmul_def)

lemma vsub_swap: "vreal (vsub a b) = vscale (vreal (vsub b a)) (- 1)"
  by (cases a; cases b) simp

lemma vsub_chain: "vreal (vsub c a) = vadd (vreal (vsub c b)) (vreal (vsub b a))"
  by (cases a; cases b; cases c) simp

lemma equiv_on_commensurate:
  assumes "det R \<noteq> 0" and "det S \<noteq> 0" and "0 < thr" and "thr \<le> 1 / real_of_int \<bar>det S\<bar>"
  shows "equiv_on A (equivalent thr round_err_euclid (superInv_of R (mmul R (mreal S))))"
proof -
  let ?M = "minv (mreal S)"
  note e = equivalent_commensurate[OF assms]
  have r: "in_Z3 (mvmul ?M (vreal (vsub a a)))" for a
    by (simp add: vsub_self mvmul_zero)
  have s: "in_Z3 (mvmul ?M (vreal (vsub a b)))" if "in_Z3 (mvmul ?M (vreal (vsub b a)))" for a b
    using in_Z3_neg[OF that] by (simp only: vsub_swap[of a b] mvmul_vscale)
  have t: "in_Z3 (mvmul ?M (vreal (vsub c a)))"
    if "in_Z3 (mvmul ?M (vreal (vsub b a)))" "in_Z3 (mvmul ?M (vreal (vsub c b)))" for a b c
    using in_Z3_vadd[OF that(2) that(1)] by (simp only: vsub_chain[of c a b] mvmul_vadd)
  show ?thesis unfolding equiv_on_def e using r s t by blast
qed

text \<open>
  C3 as stated fails: for the cubic unit cell and the supercell with the first lattice vector
  reversed, the map returned has the single weight 1, but \<open>det(Rsup)/det(R) = -1\<close>.
\<close>

theorem getCellMap_sign_counterexample:
  "getCellMap (1 / 10000) round_err_euclid WignerSeitz_orthorhombic (diag3 1 1 1) (diag3 (- 1) 1 1)
     = Inr [(Vector3 0 0 0, 1)] \<and>
   diag3 (- 1) 1 1 = mmul (diag3 1 1 1) (mreal (diag3 (- 1) 1 1)) \<and>
   det (diag3 (- 1) 1 1 :: real matrix3) / det (diag3 1 1 1 :: real matrix3) = - 1 \<and>
   \<not> abs (sum_list (map snd [(Vector3 0 0 0 :: int vector3, 1 :: real)])
          - det (diag3 (- 1) 1 1 :: real matrix3) / det (diag3 1 1 1 :: real matrix3)) < 1 / 10000"
  by (simp add: getCellMap_mirror mmul_eye_left) (simp add: diag3_def)

text \<open>
  C3, as amended: for a non-degenerate unit lattice \<open>R\<close> and a supercell lattice
  \<open>Rsup = R \<cdot> S\<close> with an integer matrix \<open>S\<close> of nonzero determinant, \<open>getCellMap\<close> either
  fails its assertion or returns a map whose weights sum to the cell count
  \<open>|det S| = |det(Rsup)/det(R)|\<close> within the relative tolerance \<open>thr\<close>, that is
  \<open>|sum / |det S| - 1| < thr\<close>.
\<close>

theorem getCellMap_weight_sum:
  assumes "det R \<noteq> 0" and "Rsup = mmul R (mreal S)" and "det S \<noteq> 0"
  shows "getCellMap thr round_err ws_of R Rsup = Inl AssertionFailed \<or>
         (\<exists>m. getCellMap thr round_err ws_of R Rsup = Inr m \<and>
              abs (sum_list (map snd m) / real_of_int (abs (det S)) - 1) < thr \<and>
              real_of_int (abs (det S)) = abs (det Rsup / det R))"
proof -
  have "det Rsup / det R = real_of_int (det S)"
    using assms(1) by (simp add: assms(2) det_mmul det_mreal)
  then have "real_of_int \<bar>det S\<bar> = \<bar>det Rsup / det R\<bar>" by simp
  with getCellMap_cases[of thr round_err ws_of R Rsup] nCells_integer_multiple[OF assms]
  show ?thesis by (auto simp: weightSum_of_eq)
qed

theorem getCellMap_weight_sum_witness:
  "det (diag3 1 1 1 :: real matrix3) \<noteq> 0 \<and>
   diag3 2 1 1 = mmul (diag3 1 1 1) (mreal (diag3 2 1 1)) \<and>
   det (diag3 2 1 1 :: int matrix3) \<noteq> 0 \<and>
   getCellMap (1 / 10000) round_err_euclid WignerSeitz_orthorhombic (diag3 1 1 1) (diag3 2 1 1)
     = Inr [(Vector3 0 0 0, 1), (Vector3 (- 1) 0 0, 1 / 2), (Vector3 1 0 0, 1 / 2)] \<and>
   abs (sum_list (map snd [(Vector3 0 0 0 :: int vector3, 1), (Vector3 (- 1) 0 0, 1 / 2), (Vector3 1 0 0, 1 / 2 :: real)])
          / real_of_int (abs (det (diag3 2 1 1 :: int matrix3))) - 1) < 1 / 10000"
proof -
  have d: "det (diag3 1 1 1 :: real matrix3) \<noteq> 0" by (simp add: diag3_def)
  have s: "diag3 2 1 1 = mmul (diag3 1 1 1) (mreal (diag3 2 1 1))"
    by (simp add: mmul_eye_left) (simp add: diag3_def)
  have n: "det (diag3 2 1 1 :: int matrix3) \<noteq> 0" by (simp add: diag3_def)
  from getCellMap_weight_sum[OF d s n, of "1 / 10000" round_err_euclid WignerSeitz_orthorhombic]
  have "abs (sum_list (map snd [(Vector3 0 0 0 :: int vector3, 1), (Vector3 (- 1) 0 0, 1 / 2), (Vector3 1 0 0, 1 / 2 :: real)])
          / real_of_int (abs (det (diag3 2 1 1 :: int matrix3))) - 1) < 1 / 10000"
    unfolding getCellMap_double by blast
  with d s n getCellMap_double show ?thesis by blast
qed

lemma boundary_weights:
  assumes "det R \<noteq> 0" and "det Rsup \<noteq> 0"
    and "getCellMap thr round_err ws_of R Rsup = Inr m"
    and "equiv_on (set (surface_cells ws_of R Rsup)) (equivalent thr round_err (superInv_of R Rsup))"
  shows "(\<forall>c\<in>set (surface_cells ws_of R Rsup).
            map_of m c = Some (1 / real (length (filter (equivalent thr round_err (superInv_of R Rsup) c)
                                                    (surface_cells ws_of R Rsup))))) \<and>
         (\<forall>c\<in>set (surface_cells ws_of R Rsup). \<forall>c2\<in>set (surface_cells ws_of R Rsup).
            equivalent thr round_err (superInv_of R Rsup) c c2 \<longrightarrow> map_of m c = map_of m c2) \<and>
         (\<forall>c\<in>set (interior_cells ws_of R Rsup). map_of m c = Some 1) \<and>
         (\<forall>e\<in>set m. 0 < snd e \<and> snd e \<le> 1) \<and>
         surface_cells ws_of R Rsup =
           filter (\<lambda>c. onBoundary (ws_of Rsup) (mvmul (superInv_of R Rsup) (vreal c)))
             (iCells (iCellMax_of (ws_of Rsup) R))"
proof -
  let ?S = "surface_cells ws_of R Rsup"
  let ?E = "equivalent thr round_err (superInv_of R Rsup)"
  let ?m0 = "fst (classified ws_of R Rsup)"
  have m: "m = surface_weights thr round_err (superInv_of R Rsup) ?S ?m0"
    by (rule getCellMap_Inr[OF assms(3)])
  have 1: "map_of m c = Some (1 / real (length (filter (?E c) ?S)))" if "c \<in> set ?S" for c
    unfolding m by (rule surface_weights_class[OF distinct_surface_cells assms(4) that])
  have 2: "map_of m c = map_of m c2" if "c \<in> set ?S" "c2 \<in> set ?S" "?E c c2" for c c2
    using 1[OF that(1)] 1[OF that(2)] class_eq[OF assms(4) that] by simp
  have 3: "map_of m c = Some 1" if "c \<in> set (interior_cells ws_of R Rsup)" for c
    unfolding m using surface_weights_other[OF interior_not_surface[OF that]] that
    by (simp add: interior_map)
  have "snd ` set ?m0 \<subseteq> {0<..1}" using interior_values[of ws_of R Rsup] by auto
  from surface_weights_values[OF this] have "snd ` set m \<subseteq> {0<..1}" unfolding m .
  then have 4: "0 < snd e \<and> snd e \<le> 1" if "e \<in> set m" for e using that by auto
  from 1 2 3 4 surface_cells_eq[of ws_of R Rsup] show ?thesis by blast
qed

text \<open>
  The presupposition holds for every commensurate supercell: with \<open>Rsup = R \<cdot> S\<close>, the
  Euclidean rounding error and \<open>0 < thr \<le> 1 / |det S|\<close>, every boundary cell has the weight
  1 / (size of its class).
\<close>

corollary boundary_weights_commensurate:
  assumes "det R \<noteq> 0" and "det S \<noteq> 0" and "0 < thr" and "thr \<le> 1 / real_of_int \<bar>det S\<bar>"
    and "getCellMap thr round_err_euclid ws_of R (mmul R (mreal S)) = Inr m"
    and "c \<in> set (surface_cells ws_of R (mmul R (mreal S)))"
  shows "map_of m c =
           Some (1 / real (length (filter (equivalent thr round_err_euclid
                                             (superInv_of R (mmul R (mreal S))) c)
                                     (surface_cells ws_of R (mmul R (mreal S))))))"
proof -
  have "det (mmul R (mreal S)) \<noteq> 0" using assms(1,2) by (simp add: det_mmul det_mreal)
  from boundary_weights[OF assms(1) this assms(5) equiv_on_commensurate[OF assms(1-4)]] assms(6)
  show ?thesis by blast
qed

text \<open>
  C8: when the map is returned and ``integral difference within tolerance'' is an equivalence
  relation on the cells found on the Wigner-Seitz boundary (which is what makes the classes
  well defined), every such cell has the weight 1 / (size of its class), the class being all
  boundary cells equivalent to it; equivalent cells have the same weight; interior cells
  have weight 1; and every weight of the map lies in \<open>(0, 1]\<close>. The boundary cells are the
  cells of the bounding box for which \<open>onBoundary\<close> holds.
\<close>

theorem getCellMap_boundary_weights:
  assumes "det R \<noteq> 0" and "det Rsup \<noteq> 0"
    and "getCellMap thr round_err ws_of R Rsup = Inr m"
    and "equiv_on (set (surface_cells ws_of R Rsup)) (equivalent thr round_err (superInv_of R Rsup))"
  shows "(\<forall>c\<in>set (surface_cells ws_of R Rsup).
            map_of m c = Some (1 / real (length (filter (equivalent thr round_err (superInv_of R Rsup) c)
                                                    (surface_cells ws_of R Rsup))))) \<and>
         (\<forall>c\<in>set (surface_cells ws_of R Rsup). \<forall>c2\<in>set (surface_cells ws_of R Rsup).
            equivalent thr round_err (superInv_of R Rsup) c c2 \<longrightarrow> map_of m c = map_of m c2) \<and>
         (\<forall>c\<in>set (interior_cells ws_of R Rsup). map_of m c = Some 1) \<and>
         (\<forall>e\<in>set m. 0 < snd e \<and> snd e \<le> 1) \<and>
         surface_cells ws_of R Rsup =
           filter (\<lambda>c. onBoundary (ws_of Rsup) (mvmul (superInv_of R Rsup) (vreal c)))
             (iCells (iCellMax_of (ws_of Rsup) R))"
  using assms by (rule boundary_weights)

theorem getCellMap_boundary_weights_witness:
  "det (diag3 1 1 1 :: real matrix3) \<noteq> 0 \<and> det (diag3 2 1 1 :: real matrix3) \<noteq> 0 \<and>
   getCellMap (1 / 10000) round_err_euclid WignerSeitz_orthorhombic (diag3 1 1 1) (diag3 2 1 1)
     = Inr [(Vector3 0 0 0, 1), (Vector3 (- 1) 0 0, 1 / 2), (Vector3 1 0 0, 1 / 2)] \<and>
   equiv_on (set (surface_cells WignerSeitz_orthorhombic (diag3 1 1 1) (diag3 2 1 1)))
     (equivalent (1 / 10000) round_err_euclid (superInv_of (diag3 1 1 1) (diag3 2 1 1))) \<and>
   surface_cells WignerSeitz_orthorhombic (diag3 1 1 1) (diag3 2 1 1) = [Vector3 (- 1) 0 0, Vector3 1 0 0] \<and>
   map_of [(Vector3 0 0 0 :: int vector3, 1), (Vector3 (- 1) 0 0, 1 / 2), (Vector3 1 0 0, 1 / 2 :: real)] (Vector3 1 0 0)
     = Some (1 / real (length (filter (equivalent (1 / 10000) round_err_euclid
                                         (superInv_of (diag3 1 1 1) (diag3 2 1 1)) (Vector3 1 0 0))
                                 [Vector3 (- 1) 0 0, Vector3 1 0 0]))) \<and>
   length (filter (equivalent (1 / 10000) round_err_euclid
                     (superInv_of (diag3 1 1 1) (diag3 2 1 1)) (Vector3 1 0 0))
             [Vector3 (- 1) 0 0, Vector3 1 0 0]) = 2"
proof -
  have d: "det (diag3 1 1 1 :: real matrix3) \<noteq> 0" "det (diag3 2 1 1 :: real matrix3) \<noteq> 0"
    by (simp_all add: diag3_def)
  have i: "Vector3 1 0 0 \<in> set (surface_cells WignerSeitz_orthorhombic (diag3 1 1 1) (diag3 2 1 1))"
    by (simp add: surface_double)
  from getCellMap_boundary_weights[OF d getCellMap_double equiv_on_double, THEN conjunct1, rule_format, OF i]
  have "map_of [(Vector3 0 0 0 :: int vector3, 1), (Vector3 (- 1) 0 0, 1 / 2), (Vector3 1 0 0, 1 / 2 :: real)] (Vector3 1 0 0)
     = Some (1 / real (length (filter (equivalent (1 / 10000) round_err_euclid
                                         (superInv_of (diag3 1 1 1) (diag3 2 1 1)) (Vector3 1 0 0))
                                 [Vector3 (- 1) 0 0, Vector3 1 0 0])))"
    by (simp only: surface_double)
  moreover have "length (filter (equivalent (1 / 10000) round_err_euclid
                     (superInv_of (diag3 1 1 1) (diag3 2 1 1)) (Vector3 1 0 0))
             [Vector3 (- 1) 0 0, Vector3 1 0 0]) = 2"
    unfolding superInv_double by (simp add: equivalent_pm)
  ultimately show ?thesis using d getCellMap_double equiv_on_double surface_double by blast
qed

end
